theory Spec2Isabelle
  imports Main "HOL-Library.AList" "HOL-Library.Sublist"
begin

unbundle bit_operations_syntax

section \<open>Data model of lib/trace.js\<close>

text \<open>
  Schema nodes are JavaScript objects; the coverage store keys its logs by object
  identity. A node is therefore an address, and the schema graph is a heap that maps
  each address to what the tracer reads of the node: the two identifier flags
  (\<^verbatim>\<open>_flags.id\<close>, \<^verbatim>\<open>_flags._key\<close>), the flags \<^verbatim>\<open>default\<close> and \<^verbatim>\<open>failover\<close>
  (\<open>None\<close> is \<^verbatim>\<open>undefined\<close>), the names of its rules in the order of \<^verbatim>\<open>_rules\<close>,
  its declared literal sets (the elements of \<^verbatim>\<open>_valids._set\<close> and of
  \<^verbatim>\<open>_invalids._set\<close> in insertion order, \<open>None\<close> for a node without the set) and
  the calls that \<^verbatim>\<open>$_modify({ each, ref: false })\<close> makes to \<^verbatim>\<open>each\<close>
  (the sub schema and its \<^verbatim>\<open>{ source, name, path }\<close>), in order.
  \<^verbatim>\<open>$_modify\<close> itself lives outside lib/trace.js, so the enumeration is data of
  the node.
\<close>

type_synonym addr = nat

text \<open>
  An element of a path array: a string, a number or \<^verbatim>\<open>undefined\<close>. The positional
  path that the enumeration reports holds array indices and object keys. The paths of
  the logs hold the identifiers of the nodes on the way; where an identifier is a pair,
  the path holds its two components one after the other (see \<open>concat_id\<close> below).
\<close>

datatype segment = Str string | Num nat | Undefined

type_synonym path = "segment list"

text \<open>What \<^verbatim>\<open>internals.id\<close> returns: a string, or the pair \<^verbatim>\<open>[name, path[1]]\<close>.\<close>

datatype ident = Plain string | Pair string segment

text \<open>Literal values of the valid and invalid sets. JavaScript sets compare with
  SameValueZero: primitives by value, objects by reference. Numbers are integers here.\<close>

datatype literal = LNull | LBool bool | LNum int | LStr string | LRef nat

record ctx =
  ctx_source :: string
  ctx_name :: string
  ctx_path :: "segment list"

record schema =
  flags_id :: "string option"
  flags_key :: "string option"
  flags_default :: "literal option"
  flags_failover :: "literal option"
  rules :: "string list"
  valids :: "literal list option"
  invalids :: "literal list option"
  modify_each :: "(addr \<times> ctx) list"

type_synonym heap = "addr \<Rightarrow> schema"

section \<open>The identifier resolver\<close>

text \<open>JavaScript truthiness of a string-valued flag: \<^verbatim>\<open>undefined\<close> and the empty string
  are falsy.\<close>

fun truthy :: "string option \<Rightarrow> bool" where
  "truthy None = False"
| "truthy (Some s) = (s \<noteq> [])"

text \<open>\<^verbatim>\<open>path[1]\<close>: reading past the end of an array gives \<^verbatim>\<open>undefined\<close>.\<close>

fun path_at1 :: "segment list \<Rightarrow> segment" where
  "path_at1 (a # b # _) = b"
| "path_at1 _ = Undefined"

definition internals_id :: "schema \<Rightarrow> ctx \<Rightarrow> ident" where
  "internals_id sch c =
     (if truthy (flags_id sch) then Plain (the (flags_id sch))
      else if truthy (flags_key sch) then Plain (the (flags_key sch))
      else (let name = CHR ''@'' # ctx_name c
            in if ctx_source c = ''terms'' then Pair name (path_at1 (ctx_path c))
               else Plain name))"

text \<open>
  \<^verbatim>\<open>path.concat(id)\<close>: a new array with the elements of the path and then the
  identifier. \<^verbatim>\<open>Array.prototype.concat\<close> appends an argument that is an array element by
  element, so a pair adds its two components to the path.
\<close>

fun concat_id :: "path \<Rightarrow> ident \<Rightarrow> path" where
  "concat_id p (Plain s) = p @ [Str s]"
| "concat_id p (Pair s k) = p @ [Str s, k]"

section \<open>Coverage logs and the store\<close>

text \<open>
  One log per node. \<^verbatim>\<open>paths\<close> is a JavaScript \<^verbatim>\<open>Set\<close> of arrays. A set of
  arrays compares its elements by reference, and every array that \<^verbatim>\<open>_scan\<close> adds is
  freshly built (by \<^verbatim>\<open>path.concat(id)\<close>, once for each call of \<^verbatim>\<open>each\<close>), so an
  add always inserts: the set is the list of the added arrays in insertion order.
  \<^verbatim>\<open>rule\<close> is a plain object; the association list holds its own properties, the
  outcome masks by rule name (what the object inherits is \<open>object_prototype\<close> below).
  \<^verbatim>\<open>valid\<close> and \<^verbatim>\<open>invalid\<close> are sets of literals, kept as lists without
  repetition in insertion order.
\<close>

record log =
  paths :: "path list"
  entry :: bool
  rule :: "(string \<times> nat) list"
  valid :: "literal list"
  invalid :: "literal list"

text \<open>\<^verbatim>\<open>Store._logs\<close>: a \<^verbatim>\<open>Map\<close> from nodes to logs, in insertion order.\<close>

type_synonym store = "(addr \<times> log) list"

definition new_log :: log where
  "new_log = \<lparr>paths = [], entry = False, rule = [], valid = [], invalid = []\<rparr>"

definition add_path :: "path \<Rightarrow> log \<Rightarrow> log" where
  "add_path p l = l\<lparr>paths := paths l @ [p]\<rparr>"

text \<open>
  The first half of \<^verbatim>\<open>_scan(schema, _path)\<close>: get the log of the node or create it at
  the end of the map, then add the path unless it is empty.
\<close>

definition visit :: "addr \<Rightarrow> path \<Rightarrow> store \<Rightarrow> store" where
  "visit sch p logs =
     (let logs1 = (case map_of logs sch of
                     None \<Rightarrow> logs @ [(sch, new_log)]
                   | Some l \<Rightarrow> logs)
      in if p \<noteq> [] then AList.map_entry sch (add_path p) logs1 else logs1)"

text \<open>
  \<^verbatim>\<open>_scan\<close> and the calls of \<^verbatim>\<open>each\<close> that \<^verbatim>\<open>$_modify\<close> makes for the sub
  schemas, in order. The recursion follows the enumeration of the node and does not end
  on a cyclic schema, so the model counts the depth left: \<open>None\<close> is a scan that needs
  more than the given depth.
\<close>

fun Store_scan :: "nat \<Rightarrow> heap \<Rightarrow> addr \<Rightarrow> path \<Rightarrow> store \<Rightarrow> store option"
  and scan_each :: "nat \<Rightarrow> heap \<Rightarrow> path \<Rightarrow> (addr \<times> ctx) list \<Rightarrow> store \<Rightarrow> store option"
where
  "Store_scan 0 h sch p logs = None"
| "Store_scan (Suc n) h sch p logs = scan_each n h p (modify_each (h sch)) (visit sch p logs)"
| "scan_each n h p [] logs = Some logs"
| "scan_each n h p (sc # rest) logs =
     (case Store_scan n h (fst sc) (concat_id p (internals_id (h (fst sc)) (snd sc))) logs of
        None \<Rightarrow> None
      | Some logs' \<Rightarrow> scan_each n h p rest logs')"

text \<open>The constructor of \<^verbatim>\<open>Store\<close>: an empty map, then the scan of the root with no
  path.\<close>

definition Store_new :: "nat \<Rightarrow> heap \<Rightarrow> addr \<Rightarrow> store option" where
  "Store_new n h root = Store_scan n h root [] []"

section \<open>The instrumentation port\<close>

text \<open>
  The three methods look the log up with \<^verbatim>\<open>this._logs.get(schema)\<close> and then read
  a property of the result: for a node that the scan did not find, the result is
  \<^verbatim>\<open>undefined\<close> and the property access throws a \<^verbatim>\<open>TypeError\<close>.
  The source of \<^verbatim>\<open>log\<close> names the property of the log that holds the masks, which is
  \<^verbatim>\<open>rule\<close>; the source of \<^verbatim>\<open>value\<close> names the set of the log that takes the
  value, \<^verbatim>\<open>valid\<close> or \<^verbatim>\<open>invalid\<close>. The types admit these sources only.
\<close>

datatype error = TypeError

datatype log_source = Rule

datatype value_source = Valid | Invalid

text \<open>\<^verbatim>\<open>internals.codes[result]\<close>; a result that is not a key gives \<^verbatim>\<open>undefined\<close>
  (or a value that \<^verbatim>\<open>internals.codes\<close> inherits, which converts to the same number).\<close>

definition codes :: "string \<Rightarrow> nat option" where
  "codes result =
     (if result = ''error'' then Some 1
      else if result = ''value'' then Some 2
      else if result = ''full'' then Some 3
      else None)"

text \<open>
  \<^verbatim>\<open>log.rule\<close> is created as \<^verbatim>\<open>{}\<close>, so it inherits the properties of
  \<^verbatim>\<open>Object.prototype\<close>. These are their names. All of them are functions, except
  \<^verbatim>\<open>__proto__\<close>, an accessor that reads as the prototype object.
\<close>

definition object_prototype :: "string list" where
  "object_prototype =
     [''constructor'', ''__defineGetter__'', ''__defineSetter__'', ''hasOwnProperty'',
      ''__lookupGetter__'', ''__lookupSetter__'', ''isPrototypeOf'', ''propertyIsEnumerable'',
      ''toString'', ''valueOf'', ''__proto__'', ''toLocaleString'']"

text \<open>What \<^verbatim>\<open>log.rule[name]\<close> reads: the mask that the object holds itself, else the
  function or object that it inherits under the name, else \<^verbatim>\<open>undefined\<close>.\<close>

datatype property = Absent | Mask nat | Inherited

definition rule_read :: "log \<Rightarrow> string \<Rightarrow> property" where
  "rule_read l name =
     (case map_of (rule l) name of
        Some m \<Rightarrow> Mask m
      | None \<Rightarrow> if name \<in> set object_prototype then Inherited else Absent)"

text \<open>
  The number that the two statements of \<^verbatim>\<open>log\<close> compute with:
  \<^verbatim>\<open>log.rule[name] || 0\<close> is the mask, \<open>0\<close> for \<^verbatim>\<open>undefined\<close>, or the inherited
  function or object, which \<^verbatim>\<open>|=\<close> then converts to the number \<open>0\<close>.
\<close>

definition rule_mask :: "log \<Rightarrow> string \<Rightarrow> nat" where
  "rule_mask l name = (case rule_read l name of Mask m \<Rightarrow> m | _ \<Rightarrow> 0)"

text \<open>\<^verbatim>\<open>x |= internals.codes[result]\<close>; \<^verbatim>\<open>undefined\<close> converts to \<open>0\<close>.\<close>

definition or_code :: "nat \<Rightarrow> string \<Rightarrow> nat" where
  "or_code m result = (case codes result of None \<Rightarrow> m OR 0 | Some c \<Rightarrow> m OR c)"

text \<open>
  \<^verbatim>\<open>log[source][name] = log[source][name] || 0; log[source][name] |= internals.codes[result]\<close>.
  Both assignments make or change a property of the object itself, which then holds
  the number. The name \<^verbatim>\<open>__proto__\<close> is the exception: unless the object has a
  property of this name itself, the assignments go to the inherited setter, which
  leaves the object as it is (the first passes the prototype that the object already
  has, the second a number, which the setter ignores).
\<close>

definition to_setter :: "log \<Rightarrow> string \<Rightarrow> bool" where
  "to_setter l name \<longleftrightarrow> name = ''__proto__'' \<and> map_of (rule l) name = None"

definition log_rule :: "string \<Rightarrow> string \<Rightarrow> log \<Rightarrow> log" where
  "log_rule name result l =
     (if to_setter l name then l
      else l\<lparr>rule := AList.update name (or_code (rule_mask l name) result) (rule l)\<rparr>)"

text \<open>\<^verbatim>\<open>Set.prototype.add\<close> on a set of literals.\<close>

definition set_add :: "literal \<Rightarrow> literal list \<Rightarrow> literal list" where
  "set_add v s = (if v \<in> set s then s else s @ [v])"

fun log_value :: "value_source \<Rightarrow> literal \<Rightarrow> log \<Rightarrow> log" where
  "log_value Valid v l = l\<lparr>valid := set_add v (valid l)\<rparr>"
| "log_value Invalid v l = l\<lparr>invalid := set_add v (invalid l)\<rparr>"

definition Store_entry :: "addr \<Rightarrow> store \<Rightarrow> error + store" where
  "Store_entry sch logs =
     (case map_of logs sch of
        None \<Rightarrow> Inl TypeError
      | Some l \<Rightarrow> Inr (AList.map_entry sch (\<lambda>l. l\<lparr>entry := True\<rparr>) logs))"

fun Store_log :: "log_source \<Rightarrow> string \<Rightarrow> string \<Rightarrow> addr \<Rightarrow> store \<Rightarrow> error + store" where
  "Store_log Rule name result sch logs =
     (case map_of logs sch of
        None \<Rightarrow> Inl TypeError
      | Some l \<Rightarrow> Inr (AList.map_entry sch (log_rule name result) logs))"

definition Store_value :: "value_source \<Rightarrow> literal \<Rightarrow> addr \<Rightarrow> store \<Rightarrow> error + store" where
  "Store_value source v sch logs =
     (case map_of logs sch of
        None \<Rightarrow> Inl TypeError
      | Some l \<Rightarrow> Inr (AList.map_entry sch (log_value source v) logs))"

section \<open>The tracer\<close>

text \<open>\<^verbatim>\<open>Tracer._schemas\<close>: a \<^verbatim>\<open>Map\<close> from registered roots to their location and
  store, in insertion order. The store object of a root is the one held here.\<close>

record registration =
  reg_filename :: string
  reg_line :: nat
  reg_store :: store

type_synonym tracer = "(addr \<times> registration) list"

text \<open>\<^verbatim>\<open>_register(schema)\<close>. \<^verbatim>\<open>Pinpoint.location(4)\<close> is the caller's location, an
  argument here. The result is the store and the tracer after the call.\<close>

definition Tracer_register ::
  "nat \<Rightarrow> heap \<Rightarrow> string \<times> nat \<Rightarrow> addr \<Rightarrow> tracer \<Rightarrow> (store \<times> tracer) option" where
  "Tracer_register n h loc sch t =
     (case map_of t sch of
        Some existing \<Rightarrow> Some (reg_store existing, t)
      | None \<Rightarrow>
          (case Store_new n h sch of
             None \<Rightarrow> None
           | Some st \<Rightarrow>
               Some (st, t @ [(sch, \<lparr>reg_filename = fst loc, reg_line = snd loc, reg_store = st\<rparr>)])))"

section \<open>The report\<close>

datatype status = Label string | Values "literal list"

text \<open>An element of \<^verbatim>\<open>missing\<close>: an object with a \<^verbatim>\<open>status\<close> and the optional
  properties \<^verbatim>\<open>rule\<close> and \<^verbatim>\<open>paths\<close>.\<close>

datatype item = Item (item_status: status) (item_rule: "string option") (item_paths: "path list option")

text \<open>An element of \<^verbatim>\<open>coverage\<close>.\<close>

record coverage =
  filename :: string
  line :: nat
  missing :: "item list"
  severity :: string
  message :: string

text \<open>
  \<^verbatim>\<open>report\<close> reads the tracer (\<^verbatim>\<open>this._schemas\<close>, with the stores and logs that
  it holds) and the schema nodes. These two make up the state that outlives the call.
\<close>

record world =
  w_schemas :: tracer
  w_nodes :: heap

text \<open>
  The state while \<^verbatim>\<open>report\<close> runs: the world, and the arrays and the set that the
  method declares, \<^verbatim>\<open>coverage\<close>, \<^verbatim>\<open>missing\<close>, \<^verbatim>\<open>skipped\<close>, \<^verbatim>\<open>values\<close>
  and \<^verbatim>\<open>rules\<close>. Every statement of the method that writes is a function on this
  state, and the state after the call is what these functions leave.
\<close>

record frame =
  fr_world :: world
  var_coverage :: "coverage list"
  var_missing :: "item list"
  var_skipped :: "path list"
  var_values :: "literal list"
  var_rules :: "string list"

text \<open>The state when the method is entered; a variable holds nothing before its
  declaration.\<close>

definition new_frame :: "world \<Rightarrow> frame" where
  "new_frame w =
     \<lparr>fr_world = w, var_coverage = [], var_missing = [], var_skipped = [],
      var_values = [], var_rules = []\<rparr>"

text \<open>\<^verbatim>\<open>missing.push(item)\<close>.\<close>

definition missing_push :: "item \<Rightarrow> frame \<Rightarrow> frame" where
  "missing_push it f = f\<lparr>var_missing := var_missing f @ [it]\<rparr>"

text \<open>\<^verbatim>\<open>internals.labels[mask]\<close>.\<close>

definition labels :: "nat \<Rightarrow> string option" where
  "labels m =
     (if m = 0 then Some ''never used''
      else if m = 1 then Some ''always error''
      else if m = 2 then Some ''always pass''
      else None)"

text \<open>\<^verbatim>\<open>internals.sub(paths, skipped)\<close>: some path starts with some skipped path
  (\<^verbatim>\<open>DeepEqual(path.slice(0, skip.length), skip)\<close>).\<close>

definition internals_sub :: "path list \<Rightarrow> path list \<Rightarrow> bool" where
  "internals_sub ps skipped =
     list_ex (\<lambda>p. list_ex (\<lambda>skip. take (length skip) p = skip) skipped) ps"

text \<open>The two categories of literal values: \<^verbatim>\<open>sub[`_${type}s`]\<close> with its \<^verbatim>\<open>_set\<close>,
  \<^verbatim>\<open>log[type]\<close> and the rule name \<^verbatim>\<open>`${type}s`\<close>.\<close>

fun declared :: "value_source \<Rightarrow> schema \<Rightarrow> literal list option" where
  "declared Valid sub = valids sub"
| "declared Invalid sub = invalids sub"

fun observed :: "value_source \<Rightarrow> log \<Rightarrow> literal list" where
  "observed Valid l = valid l"
| "observed Invalid l = invalid l"

fun values_rule :: "value_source \<Rightarrow> string" where
  "values_rule Valid = ''valids''"
| "values_rule Invalid = ''invalids''"

text \<open>
  The check of one literal set. \<^verbatim>\<open>new Set(set._set)\<close> is a new set with the declared
  values, so \<^verbatim>\<open>values.delete(value)\<close> takes the observed values from the copy and
  not from the set of the schema; what is left goes into a new array
  (\<^verbatim>\<open>[...values]\<close>).
\<close>

definition check_values :: "value_source \<Rightarrow> addr \<Rightarrow> log \<Rightarrow> frame \<Rightarrow> frame" where
  "check_values type sub l f =
     (case declared type (w_nodes (fr_world f) sub) of
        None \<Rightarrow> f
      | Some s \<Rightarrow>
          (let f1 = f\<lparr>var_values := s\<rparr>;
               f2 = fold (\<lambda>v g. g\<lparr>var_values := removeAll v (var_values g)\<rparr>) (observed type l) f1
           in if var_values f2 \<noteq> []
              then missing_push (Item (Values (var_values f2)) (Some (values_rule type)) None) f2
              else f2))"

text \<open>
  \<^verbatim>\<open>internals.labels[log.rule[name] || 0]\<close>. An inherited function or object is
  truthy and is no key of the labels.
\<close>

definition rule_label :: "log \<Rightarrow> string \<Rightarrow> string option" where
  "rule_label l name =
     (case rule_read l name of
        Absent \<Rightarrow> labels 0
      | Mask m \<Rightarrow> labels m
      | Inherited \<Rightarrow> None)"

text \<open>The body of the loop over \<^verbatim>\<open>rules\<close>: the report of a rule has the paths of the
  log only if there are any.\<close>

definition check_rule :: "log \<Rightarrow> string \<Rightarrow> frame \<Rightarrow> frame" where
  "check_rule l name f =
     (case rule_label l name of
        None \<Rightarrow> f
      | Some st \<Rightarrow>
          missing_push
            (Item (Label st) (Some name) (if paths l \<noteq> [] then Some (paths l) else None)) f)"

text \<open>
  The check of the rules. \<^verbatim>\<open>sub._rules.map((rule) => rule.name)\<close> is a new array, so
  \<^verbatim>\<open>rules.push(type)\<close> adds the names of the flags to the new array and not to the
  rules of the schema.
\<close>

definition check_rules :: "addr \<Rightarrow> log \<Rightarrow> frame \<Rightarrow> frame" where
  "check_rules sub l f =
     (let f1 = f\<lparr>var_rules := rules (w_nodes (fr_world f) sub)\<rparr>;
          f2 = (if flags_default (w_nodes (fr_world f1) sub) \<noteq> None
                then f1\<lparr>var_rules := var_rules f1 @ [''default'']\<rparr> else f1);
          f3 = (if flags_failover (w_nodes (fr_world f2) sub) \<noteq> None
                then f2\<lparr>var_rules := var_rules f2 @ [''failover'']\<rparr> else f2)
      in fold (check_rule l) (var_rules f3) f3)"

text \<open>
  The body of the loop over \<^verbatim>\<open>store._logs\<close>. The paths of a log that was not
  entered are copied into the item (\<^verbatim>\<open>[...log.paths]\<close>) and pushed onto
  \<^verbatim>\<open>skipped\<close>.
\<close>

definition report_log :: "addr \<Rightarrow> log \<Rightarrow> frame \<Rightarrow> frame" where
  "report_log sub l f =
     (if internals_sub (paths l) (var_skipped f) then f
      else if \<not> entry l then
        (let f1 = missing_push (Item (Label ''never reached'') None (Some (paths l))) f
         in f1\<lparr>var_skipped := var_skipped f1 @ paths l\<rparr>)
      else check_rules sub l (check_values Invalid sub l (check_values Valid sub l f)))"

fun report_logs :: "store \<Rightarrow> frame \<Rightarrow> frame" where
  "report_logs [] f = f"
| "report_logs (sl # rest) f = report_logs rest (report_log (fst sl) (snd sl) f)"

text \<open>
  What the message needs from outside lib/trace.js. \<^verbatim>\<open>Errors.path\<close> is a function
  of lib/errors.js, which is not among the sources of this development: it is a
  parameter, for the argument that \<^verbatim>\<open>internals.message\<close> gives it, which is
  \<^verbatim>\<open>item.paths[0]\<close>, a path or, when the array is empty, \<^verbatim>\<open>undefined\<close>
  (\<open>None\<close>). The call returns a string or raises. The other parameter is the conversion
  of a literal to a string.
\<close>

record env =
  errors_path :: "path option \<Rightarrow> error + string"
  to_string :: "literal \<Rightarrow> string"

fun join :: "string \<Rightarrow> string list \<Rightarrow> string" where
  "join sep [] = []"
| "join sep [x] = x"
| "join sep (x # y # rest) = x @ sep @ join sep (y # rest)"

text \<open>An array in a template string is joined with commas; \<^verbatim>\<open>null\<close> joins as the
  empty string.\<close>

fun status_string :: "env \<Rightarrow> status \<Rightarrow> string" where
  "status_string E (Label s) = s"
| "status_string E (Values vs) =
     join '','' (map (\<lambda>v. if v = LNull then [] else to_string E v) vs)"

text \<open>
  \<^verbatim>\<open>internals.message(item)\<close>. The test \<^verbatim>\<open>item.paths ? \<dots>\<close> is on the array, and
  an array is truthy also when it is empty: an item with the paths \<^verbatim>\<open>[]\<close> passes
  \<^verbatim>\<open>undefined\<close> to \<^verbatim>\<open>Errors.path\<close>.
\<close>

definition internals_message :: "env \<Rightarrow> item \<Rightarrow> error + string" where
  "internals_message E it =
     (case item_paths it of
        None \<Rightarrow>
          Inr ((if truthy (item_rule it) then the (item_rule it) else [])
               @ '' ('' @ status_string E (item_status it) @ '')'')
      | Some ps \<Rightarrow>
          (case errors_path E (case ps of [] \<Rightarrow> None | q # _ \<Rightarrow> Some q) of
             Inl e \<Rightarrow> Inl e
           | Inr s \<Rightarrow>
               Inr (s @ (if truthy (item_rule it) then '':'' else [])
                    @ (if truthy (item_rule it) then the (item_rule it) else [])
                    @ '' ('' @ status_string E (item_status it) @ '')'')))"

text \<open>\<^verbatim>\<open>missing.map(internals.message)\<close>: the messages of the items in order, up to
  the first that raises.\<close>

fun messages :: "env \<Rightarrow> item list \<Rightarrow> error + string list" where
  "messages E [] = Inr []"
| "messages E (it # rest) =
     (case internals_message E it of
        Inl e \<Rightarrow> Inl e
      | Inr s \<Rightarrow> (case messages E rest of Inl e \<Rightarrow> Inl e | Inr ss \<Rightarrow> Inr (s # ss)))"

text \<open>
  The body of the loop over \<^verbatim>\<open>this._schemas.values()\<close>, for one registration. The
  result is the state after the body, or the error and the state when the message
  raises, which is before anything is pushed onto \<^verbatim>\<open>coverage\<close>.
\<close>

definition report_schema ::
  "env \<Rightarrow> string option \<Rightarrow> registration \<Rightarrow> frame \<Rightarrow> error \<times> frame + frame" where
  "report_schema E file r f =
     (if truthy file \<and> file \<noteq> Some (reg_filename r) then Inr f
      else
        (let f1 = f\<lparr>var_missing := [], var_skipped := []\<rparr>;
             f2 = report_logs (reg_store r) f1
         in if var_missing f2 \<noteq> [] then
              (case messages E (var_missing f2) of
                 Inl e \<Rightarrow> Inl (e, f2)
               | Inr ms \<Rightarrow>
                   Inr (f2\<lparr>var_coverage := var_coverage f2 @
                     [\<lparr>filename = reg_filename r, line = reg_line r, missing = var_missing f2,
                       severity = ''error'',
                       message = ''Schema missing tests for '' @ join '', '' ms\<rparr>]\<rparr>))
            else Inr f2))"

fun report_schemas ::
  "env \<Rightarrow> string option \<Rightarrow> registration list \<Rightarrow> frame \<Rightarrow> error \<times> frame + frame" where
  "report_schemas E file [] f = Inr f"
| "report_schemas E file (r # rest) f =
     (case report_schema E file r f of
        Inl ef \<Rightarrow> Inl ef
      | Inr f' \<Rightarrow> report_schemas E file rest f')"

text \<open>
  \<^verbatim>\<open>report(file)\<close>: the result, which is the array \<^verbatim>\<open>coverage\<close>, \<^verbatim>\<open>null\<close>
  (\<open>None\<close>) or the error that was raised, and the world that the call leaves.
\<close>

definition Tracer_report ::
  "env \<Rightarrow> string option \<Rightarrow> world \<Rightarrow> (error + coverage list option) \<times> world" where
  "Tracer_report E file w =
     (case report_schemas E file (map snd (w_schemas w)) (new_frame w) of
        Inl ef \<Rightarrow> (Inl (fst ef), fr_world (snd ef))
      | Inr f \<Rightarrow>
          (Inr (if var_coverage f \<noteq> [] then Some (var_coverage f) else None), fr_world f))"

section \<open>Notions that the properties are stated with\<close>

subsection \<open>Routes and visits\<close>

text \<open>
  A structural route from \<open>x\<close> to \<open>y\<close>: a chain of enumerated sub schemas, with the
  identifiers that \<^verbatim>\<open>internals.id\<close> gives along the way, concatenated. A route from
  the root is a path under which \<^verbatim>\<open>_scan\<close> meets the node.
\<close>

inductive route :: "heap \<Rightarrow> addr \<Rightarrow> path \<Rightarrow> addr \<Rightarrow> bool" for h where
  here: "route h x [] x"
| down: "sc \<in> set (modify_each (h x)) \<Longrightarrow> route h (fst sc) r y \<Longrightarrow>
           route h x (concat_id [] (internals_id (h (fst sc)) (snd sc)) @ r) y"

text \<open>The calls of \<^verbatim>\<open>_scan\<close> that one scan makes, as pairs of node and path in the
  order of the calls.\<close>

fun visits :: "nat \<Rightarrow> heap \<Rightarrow> addr \<Rightarrow> path \<Rightarrow> (addr \<times> path) list option"
  and visits_each :: "nat \<Rightarrow> heap \<Rightarrow> path \<Rightarrow> (addr \<times> ctx) list \<Rightarrow> (addr \<times> path) list option"
where
  "visits 0 h sch p = None"
| "visits (Suc n) h sch p =
     map_option (\<lambda>vs. (sch, p) # vs) (visits_each n h p (modify_each (h sch)))"
| "visits_each n h p [] = Some []"
| "visits_each n h p (sc # rest) =
     (case visits n h (fst sc) (concat_id p (internals_id (h (fst sc)) (snd sc))) of
        None \<Rightarrow> None
      | Some vs \<Rightarrow> map_option (\<lambda>ws. vs @ ws) (visits_each n h p rest))"

definition visit_all :: "(addr \<times> path) list \<Rightarrow> store \<Rightarrow> store" where
  "visit_all vs logs = fold (\<lambda>v. visit (fst v) (snd v)) vs logs"

text \<open>The log of a node in a store; the log of a node without one reads as a new log.\<close>

definition log_at :: "store \<Rightarrow> addr \<Rightarrow> log" where
  "log_at logs y = (case map_of logs y of None \<Rightarrow> new_log | Some l \<Rightarrow> l)"

subsection \<open>The accumulation order on logs and stores\<close>

text \<open>
  \<open>log_le l l'\<close>: the log \<open>l'\<close> holds what \<open>l\<close> holds and possibly more. The paths
  are the same, a set entry flag stays set, every rule mask keeps its bits and the
  observed sets only grow. \<open>store_le\<close>: the same nodes in the same order, each log
  related in this way.
\<close>

definition log_le :: "log \<Rightarrow> log \<Rightarrow> bool" where
  "log_le l l' \<longleftrightarrow>
     paths l' = paths l \<and>
     (entry l \<longrightarrow> entry l') \<and>
     (\<forall>name. rule_mask l name OR rule_mask l' name = rule_mask l' name) \<and>
     set (valid l) \<subseteq> set (valid l') \<and>
     set (invalid l) \<subseteq> set (invalid l')"

definition store_le :: "store \<Rightarrow> store \<Rightarrow> bool" where
  "store_le logs logs' \<longleftrightarrow>
     list_all2 (\<lambda>kl kl'. fst kl' = fst kl \<and> log_le (snd kl) (snd kl')) logs logs'"

subsection \<open>Validation runs\<close>

text \<open>
  The validator drives the port: a validation run is a sequence of calls of
  \<^verbatim>\<open>entry\<close>, \<^verbatim>\<open>log\<close> and \<^verbatim>\<open>value\<close> on the store, each on the store that the
  call before it has left. A call that throws ends the sequence.
\<close>

datatype call =
  Entry addr
| Log log_source string string addr
| Value value_source literal addr

fun port_call :: "call \<Rightarrow> store \<Rightarrow> error + store" where
  "port_call (Entry sch) logs = Store_entry sch logs"
| "port_call (Log src name result sch) logs = Store_log src name result sch logs"
| "port_call (Value src v sch) logs = Store_value src v sch logs"

fun port_calls :: "call list \<Rightarrow> store \<Rightarrow> error + store" where
  "port_calls [] logs = Inr logs"
| "port_calls (c # cs) logs =
     (case port_call c logs of
        Inl e \<Rightarrow> Inl e
      | Inr logs' \<Rightarrow> port_calls cs logs')"

text \<open>The results that the calls log for a rule of a node, and the values that they
  record for a category of a node, in the order of the calls.\<close>

fun outcomes :: "call list \<Rightarrow> addr \<Rightarrow> string \<Rightarrow> string list" where
  "outcomes [] sub name = []"
| "outcomes (Log src n result sch # cs) sub name =
     (if sch = sub \<and> n = name then result # outcomes cs sub name else outcomes cs sub name)"
| "outcomes (c # cs) sub name = outcomes cs sub name"

fun recorded :: "call list \<Rightarrow> addr \<Rightarrow> value_source \<Rightarrow> literal list" where
  "recorded [] sub src = []"
| "recorded (Value s v sch # cs) sub src =
     (if sch = sub \<and> s = src then v # recorded cs sub src else recorded cs sub src)"
| "recorded (c # cs) sub src = recorded cs sub src"

text \<open>A failing outcome is logged as \<^verbatim>\<open>'error'\<close>, a passing one as \<^verbatim>\<open>'value'\<close>, and
  \<^verbatim>\<open>'full'\<close> stands for both.\<close>

definition failed :: "string list \<Rightarrow> bool" where
  "failed rs \<longleftrightarrow> ''error'' \<in> set rs \<or> ''full'' \<in> set rs"

definition passed :: "string list \<Rightarrow> bool" where
  "passed rs \<longleftrightarrow> ''value'' \<in> set rs \<or> ''full'' \<in> set rs"

subsection \<open>The loop of the report over the logs of a store\<close>

text \<open>
  The state that the loop over the logs leaves when it starts with empty arrays, and
  its array \<^verbatim>\<open>missing\<close>: the gaps of the store. The state after a part of the store
  is the state in which the loop meets the next log.
\<close>

definition store_loop :: "world \<Rightarrow> store \<Rightarrow> frame" where
  "store_loop w logs = report_logs logs (new_frame w)"

definition store_missing :: "world \<Rightarrow> store \<Rightarrow> item list" where
  "store_missing w logs = var_missing (store_loop w logs)"

text \<open>\<open>suppressed w pre l\<close>: a path of the log \<open>l\<close> starts with a path that the logs
  \<open>pre\<close> before it have put on the skipped list.\<close>

definition suppressed :: "world \<Rightarrow> store \<Rightarrow> log \<Rightarrow> bool" where
  "suppressed w pre l \<longleftrightarrow>
     (\<exists>p\<in>set (paths l). \<exists>s\<in>set (var_skipped (store_loop w pre)). prefix s p)"

subsection \<open>The nodes that a report without reached nodes lists\<close>

text \<open>Going through the logs in order, a log is listed unless one of its paths starts
  with a path of a log listed before it.\<close>

fun listed :: "store \<Rightarrow> path list \<Rightarrow> store" where
  "listed [] sk = []"
| "listed (xl # rest) sk =
     (if internals_sub (paths (snd xl)) sk then listed rest sk
      else xl # listed rest (sk @ paths (snd xl)))"

definition never_reached :: "addr \<times> log \<Rightarrow> item" where
  "never_reached xl = Item (Label ''never reached'') None (Some (paths (snd xl)))"

subsection \<open>The filter of the report\<close>

text \<open>A registration passes the filter when no file is given (\<^verbatim>\<open>undefined\<close> or the
  empty string) or the file is its own.\<close>

definition selected :: "string option \<Rightarrow> registration \<Rightarrow> bool" where
  "selected file r \<longleftrightarrow> \<not> (truthy file \<and> file \<noteq> Some (reg_filename r))"

definition has_gaps :: "world \<Rightarrow> string option \<Rightarrow> registration \<Rightarrow> bool" where
  "has_gaps w file r \<longleftrightarrow> selected file r \<and> store_missing w (reg_store r) \<noteq> []"

text \<open>The record that the report holds for a registration with gaps, given the messages of
  the gaps.\<close>

definition coverage_of :: "world \<Rightarrow> registration \<Rightarrow> string list \<Rightarrow> coverage" where
  "coverage_of w r ms =
     \<lparr>filename = reg_filename r, line = reg_line r,
      missing = store_missing w (reg_store r), severity = ''error'',
      message = ''Schema missing tests for '' @ join '', '' ms\<rparr>"

subsection \<open>The loop and the port as functions\<close>

text \<open>
  What the body of the loop over the logs adds to \<^verbatim>\<open>missing\<close> and to
  \<^verbatim>\<open>skipped\<close>, as functions of the schema, the log and the skipped list: the gap of
  the values never observed, the gap of a rule, the names of the rules with those of the
  flags, the gaps of a reached node, and the step of the loop for one log and for a
  list of logs. The proofs show that the statements of the loop change the two arrays
  by these.
\<close>

definition values_gap :: "literal list option \<Rightarrow> literal list \<Rightarrow> string \<Rightarrow> item list" where
  "values_gap dcl obs rule_name =
     (case dcl of
        None \<Rightarrow> []
      | Some s \<Rightarrow>
          (if filter (\<lambda>v. v \<notin> set obs) s \<noteq> []
           then [Item (Values (filter (\<lambda>v. v \<notin> set obs) s)) (Some rule_name) None] else []))"

definition rule_gap :: "log \<Rightarrow> string \<Rightarrow> item list" where
  "rule_gap l name =
     (case rule_label l name of
        None \<Rightarrow> []
      | Some st \<Rightarrow> [Item (Label st) (Some name) (if paths l \<noteq> [] then Some (paths l) else None)])"

definition rule_names :: "schema \<Rightarrow> string list" where
  "rule_names sub =
     rules sub
     @ (if flags_default sub \<noteq> None then [''default''] else [])
     @ (if flags_failover sub \<noteq> None then [''failover''] else [])"

definition log_gaps :: "schema \<Rightarrow> log \<Rightarrow> item list" where
  "log_gaps sub l =
     values_gap (valids sub) (valid l) ''valids''
     @ values_gap (invalids sub) (invalid l) ''invalids''
     @ concat (map (rule_gap l) (rule_names sub))"

definition log_step :: "schema \<Rightarrow> log \<Rightarrow> path list \<Rightarrow> item list \<times> path list" where
  "log_step sub l sk =
     (if internals_sub (paths l) sk then ([], [])
      else if \<not> entry l then ([Item (Label ''never reached'') None (Some (paths l))], paths l)
      else (log_gaps sub l, []))"

fun logs_step :: "heap \<Rightarrow> store \<Rightarrow> path list \<Rightarrow> item list \<times> path list" where
  "logs_step h [] sk = ([], [])"
| "logs_step h (xl # rest) sk =
     (fst (log_step (h (fst xl)) (snd xl) sk)
        @ fst (logs_step h rest (sk @ snd (log_step (h (fst xl)) (snd xl) sk))),
      snd (log_step (h (fst xl)) (snd xl) sk)
        @ snd (logs_step h rest (sk @ snd (log_step (h (fst xl)) (snd xl) sk))))"

text \<open>The change that one call of the port makes to the log of the node \<open>sub\<close>, and
  the mask of a rule that has failed (\<open>a\<close>) or passed (\<open>b\<close>).\<close>

fun effect :: "addr \<Rightarrow> call \<Rightarrow> log \<Rightarrow> log" where
  "effect sub (Entry sch) l = (if sch = sub then l\<lparr>entry := True\<rparr> else l)"
| "effect sub (Log src name result sch) l = (if sch = sub then log_rule name result l else l)"
| "effect sub (Value src v sch) l = (if sch = sub then log_value src v l else l)"

definition mask_of :: "bool \<Rightarrow> bool \<Rightarrow> nat" where
  "mask_of a b = (if a then (if b then 3 else 1) else (if b then 2 else 0))"

text \<open>The records of a list of registrations, given the world: the messages of the gaps
  of each, up to the first that raises.\<close>

fun records :: "env \<Rightarrow> world \<Rightarrow> registration list \<Rightarrow> error + coverage list" where
  "records E w [] = Inr []"
| "records E w (r # rs) =
     (case messages E (store_missing w (reg_store r)) of
        Inl e \<Rightarrow> Inl e
      | Inr ms \<Rightarrow>
          (case records E w rs of
             Inl e \<Rightarrow> Inl e
           | Inr cs \<Rightarrow> Inr (coverage_of w r ms # cs)))"

section \<open>Example schemas\<close>

text \<open>A node with no flags, no rules, no literal sets and no sub schemas.\<close>

definition leaf :: schema where
  "leaf = \<lparr>flags_id = None, flags_key = None, flags_default = None, flags_failover = None,
      rules = [], valids = None, invalids = None, modify_each = []\<rparr>"

text \<open>The context of the \<open>i\<close>-th entry of a \<^verbatim>\<open>keys\<close> term, and the path of a node
  without flags that is reached through the entries \<open>ks\<close> of nested \<^verbatim>\<open>keys\<close> terms.\<close>

definition key_ctx :: "nat \<Rightarrow> ctx" where
  "key_ctx i = \<lparr>ctx_source = ''terms'', ctx_name = ''keys'', ctx_path = [Str ''schema'', Num i]\<rparr>"

definition key_path :: "nat list \<Rightarrow> path" where
  "key_path ks = concat (map (\<lambda>i. [Str ''@keys'', Num i]) ks)"

text \<open>
  A schema graph with a shared node, of the shape \<^verbatim>\<open>{ a: { p: { x: s } }, b: s }\<close>:
  node 0 is the root, node 1 is \<^verbatim>\<open>a\<close>, node 2 is \<^verbatim>\<open>a.p\<close>, and node 3 is the one
  schema \<^verbatim>\<open>s\<close> that both \<^verbatim>\<open>a.p\<close> and the root enumerate. \<^verbatim>\<open>s\<close> has a \<^verbatim>\<open>min\<close>
  rule and the valid values \<^verbatim>\<open>'x'\<close> and \<^verbatim>\<open>'y'\<close>.
\<close>

definition shared_heap :: heap where
  "shared_heap a =
     (if a = 0 then leaf\<lparr>modify_each := [(1, key_ctx 0), (3, key_ctx 1)]\<rparr>
      else if a = 1 then leaf\<lparr>modify_each := [(2, key_ctx 0)]\<rparr>
      else if a = 2 then leaf\<lparr>modify_each := [(3, key_ctx 0)]\<rparr>
      else if a = 3 then leaf\<lparr>rules := [''min''], valids := Some [LStr ''x'', LStr ''y'']\<rparr>
      else leaf)"

text \<open>The store of this schema after the scan.\<close>

definition shared_scanned :: store where
  "shared_scanned =
     [(0, new_log),
      (1, new_log\<lparr>paths := [key_path [0]]\<rparr>),
      (2, new_log\<lparr>paths := [key_path [0, 0]]\<rparr>),
      (3, new_log\<lparr>paths := [key_path [0, 0, 0], key_path [1]]\<rparr>)]"

text \<open>The log of \<^verbatim>\<open>s\<close> once it was entered, the value \<^verbatim>\<open>'x'\<close> was seen and its
  \<^verbatim>\<open>min\<close> rule passed.\<close>

definition shared_log :: log where
  "shared_log =
     \<lparr>paths = [key_path [0, 0, 0], key_path [1]], entry = True,
      rule = [(''min'', 2)], valid = [LStr ''x''], invalid = []\<rparr>"

text \<open>The logs of the root, of \<^verbatim>\<open>a\<close> and of \<^verbatim>\<open>a.p\<close> when \<^verbatim>\<open>a.p\<close> was not
  entered, and when it was.\<close>

definition upper_partly :: store where
  "upper_partly =
     [(0, new_log\<lparr>entry := True\<rparr>),
      (1, new_log\<lparr>paths := [key_path [0]], entry := True\<rparr>),
      (2, new_log\<lparr>paths := [key_path [0, 0]]\<rparr>)]"

definition upper_reached :: store where
  "upper_reached =
     [(0, new_log\<lparr>entry := True\<rparr>),
      (1, new_log\<lparr>paths := [key_path [0]], entry := True\<rparr>),
      (2, new_log\<lparr>paths := [key_path [0, 0]], entry := True\<rparr>)]"

text \<open>
  The store after a run that entered the root, \<^verbatim>\<open>a\<close> and \<^verbatim>\<open>s\<close> (as \<^verbatim>\<open>b\<close>),
  but not \<^verbatim>\<open>a.p\<close>, and the store after a run that entered every node.
\<close>

definition partly_reached :: store where
  "partly_reached = upper_partly @ [(3, shared_log)]"

definition all_reached :: store where
  "all_reached = upper_reached @ [(3, shared_log)]"

text \<open>
  The calls of two validation runs on the scanned store. In the first, three nodes are
  entered, the value \<^verbatim>\<open>'x'\<close> is seen at \<^verbatim>\<open>s\<close> and its \<^verbatim>\<open>min\<close> rule passes;
  \<^verbatim>\<open>a.p\<close> is not entered. In the other, every node is entered, and the value
  \<^verbatim>\<open>'x'\<close> is seen twice.
\<close>

definition first_run :: "call list" where
  "first_run =
     [Entry 0, Entry 1, Entry 3, Value Valid (LStr ''x'') 3, Log Rule ''min'' ''value'' 3]"

definition full_run :: "call list" where
  "full_run =
     [Entry 0, Entry 1, Entry 2, Entry 3, Value Valid (LStr ''x'') 3,
      Log Rule ''min'' ''value'' 3, Value Valid (LStr ''x'') 3]"

text \<open>A root that enumerates the same sub schema \<^verbatim>\<open>t\<close> twice; \<^verbatim>\<open>t\<close> has the
  identifier \<^verbatim>\<open>'t'\<close>.\<close>

definition twice_heap :: heap where
  "twice_heap a =
     (if a = 0 then leaf\<lparr>modify_each := [(1, key_ctx 0), (1, key_ctx 1)]\<rparr>
      else if a = 1 then leaf\<lparr>flags_id := Some ''t''\<rparr>
      else leaf)"

text \<open>A root with one sub schema, of the shape \<^verbatim>\<open>{ a: string }\<close>.\<close>

definition single_heap :: heap where
  "single_heap a = (if a = 0 then leaf\<lparr>modify_each := [(1, key_ctx 0)]\<rparr> else leaf)"

text \<open>A root with a rule of the name \<^verbatim>\<open>constructor\<close>, entered, the rule never
  logged.\<close>

definition ctor_heap :: heap where
  "ctor_heap a = leaf\<lparr>rules := [''constructor'', ''min'']\<rparr>"

text \<open>
  A rendering of paths and literals for the messages of the examples: the segments of
  the path joined with dots. For \<^verbatim>\<open>undefined\<close> there are no segments to go through,
  and the call raises.
\<close>

fun segment_name :: "segment \<Rightarrow> string" where
  "segment_name (Str s) = s"
| "segment_name (Num i) = ''#''"
| "segment_name Undefined = ''?''"

definition example_env :: env where
  "example_env =
     \<lparr>errors_path =
        (\<lambda>p. case p of None \<Rightarrow> Inl TypeError | Some q \<Rightarrow> Inr (join ''.'' (map segment_name q))),
      to_string = (\<lambda>v. case v of LStr s \<Rightarrow> s | _ \<Rightarrow> ''?'')\<rparr>"

text \<open>A tracer with two registered roots: the schema above, every node reached, and a
  schema that is a single node without rules.\<close>

definition example_tracer :: tracer where
  "example_tracer =
     [(0, \<lparr>reg_filename = ''test/a.js'', reg_line = 10, reg_store = all_reached\<rparr>),
      (5, \<lparr>reg_filename = ''test/b.js'', reg_line = 20,
           reg_store = [(5, new_log\<lparr>entry := True\<rparr>)]\<rparr>)]"

definition example_world :: world where
  "example_world = \<lparr>w_schemas = example_tracer, w_nodes = shared_heap\<rparr>"

text \<open>The tracer with the one root of the schema above, after the first run.\<close>

definition partly_world :: world where
  "partly_world =
     \<lparr>w_schemas =
        [(0, \<lparr>reg_filename = ''test/a.js'', reg_line = 10, reg_store = partly_reached\<rparr>)],
      w_nodes = shared_heap\<rparr>"

text \<open>The tracer after the root with one sub schema was registered, before any
  validation.\<close>

definition single_world :: world where
  "single_world =
     \<lparr>w_schemas =
        [(0, \<lparr>reg_filename = ''test/a.js'', reg_line = 10,
              reg_store = [(0, new_log), (1, new_log\<lparr>paths := [key_path [0]]\<rparr>)]\<rparr>)],
      w_nodes = single_heap\<rparr>"

text \<open>The tracer of the two roots after one more root, a single node, was registered and
  not validated.\<close>

definition unentered_world :: world where
  "unentered_world =
     \<lparr>w_schemas = example_tracer
        @ [(6, \<lparr>reg_filename = ''test/c.js'', reg_line = 30, reg_store = [(6, new_log)]\<rparr>)],
      w_nodes = shared_heap\<rparr>"

section \<open>Properties of the identifier resolver\<close>

lemma path_at1_nth: "path_at1 ps = (if 1 < length ps then ps ! 1 else Undefined)"
  by (cases ps rule: path_at1.cases) simp_all

text \<open>
  Claim C5, as the code has it. \<^verbatim>\<open>internals.id\<close> returns the identifier flag when it is
  set to a non-empty string; otherwise the key flag when that is set to a non-empty
  string; otherwise the name prefixed with \<^verbatim>\<open>@\<close>, paired with \<^verbatim>\<open>path[1]\<close>
  (\<^verbatim>\<open>undefined\<close> for a path shorter than two) when the source is \<^verbatim>\<open>'terms'\<close>.
  The function is total: every input has a result.
\<close>

theorem internals_id_priority:
  "(flags_id sch = Some i \<and> i \<noteq> [] \<longrightarrow> internals_id sch c = Plain i) \<and>
   (\<not> truthy (flags_id sch) \<and> flags_key sch = Some k \<and> k \<noteq> [] \<longrightarrow> internals_id sch c = Plain k) \<and>
   (\<not> truthy (flags_id sch) \<and> \<not> truthy (flags_key sch) \<and> ctx_source c \<noteq> ''terms'' \<longrightarrow>
      internals_id sch c = Plain (''@'' @ ctx_name c)) \<and>
   (\<not> truthy (flags_id sch) \<and> \<not> truthy (flags_key sch) \<and> ctx_source c = ''terms'' \<longrightarrow>
      internals_id sch c =
        Pair (''@'' @ ctx_name c) (if 1 < length (ctx_path c) then ctx_path c ! 1 else Undefined))"
  by (simp add: internals_id_def path_at1_nth)

theorem internals_id_priority_witness:
  "internals_id (leaf\<lparr>flags_id := Some ''a'', flags_key := Some ''b''\<rparr>)
      \<lparr>ctx_source = ''terms'', ctx_name = ''keys'', ctx_path = []\<rparr> = Plain ''a'' \<and>
   internals_id (leaf\<lparr>flags_key := Some ''b''\<rparr>)
      \<lparr>ctx_source = ''terms'', ctx_name = ''keys'', ctx_path = []\<rparr> = Plain ''b'' \<and>
   internals_id leaf \<lparr>ctx_source = ''rules'', ctx_name = ''items'', ctx_path = []\<rparr> = Plain ''@items'' \<and>
   internals_id leaf \<lparr>ctx_source = ''terms'', ctx_name = ''matches'', ctx_path = [Str ''schema'', Num 3]\<rparr>
     = Pair ''@matches'' (Num 3) \<and>
   internals_id leaf \<lparr>ctx_source = ''terms'', ctx_name = ''items'', ctx_path = [Num 0]\<rparr>
     = Pair ''@items'' Undefined"
  using internals_id_priority [of "leaf\<lparr>flags_id := Some ''a'', flags_key := Some ''b''\<rparr>" "''a''"
          "\<lparr>ctx_source = ''terms'', ctx_name = ''keys'', ctx_path = []\<rparr>" "''b''"]
        internals_id_priority [of "leaf\<lparr>flags_key := Some ''b''\<rparr>" "''a''"
          "\<lparr>ctx_source = ''terms'', ctx_name = ''keys'', ctx_path = []\<rparr>" "''b''"]
        internals_id_priority [of leaf "''a''"
          "\<lparr>ctx_source = ''rules'', ctx_name = ''items'', ctx_path = []\<rparr>" "''b''"]
        internals_id_priority [of leaf "''a''"
          "\<lparr>ctx_source = ''terms'', ctx_name = ''matches'', ctx_path = [Str ''schema'', Num 3]\<rparr>" "''b''"]
        internals_id_priority [of leaf "''a''"
          "\<lparr>ctx_source = ''terms'', ctx_name = ''items'', ctx_path = [Num 0]\<rparr>" "''b''"]
  by (simp add: leaf_def)

text \<open>
  Claim C5 as stated fails for a flag that is declared but falsy: a node whose key flag
  is the empty string and that is reached as the first entry of the \<^verbatim>\<open>keys\<close> term does
  not get its key as identifier, but the synthesized pair.
\<close>

theorem internals_id_empty_key_counterexample:
  "flags_id (leaf\<lparr>flags_key := Some ''''\<rparr>) = None \<and>
   flags_key (leaf\<lparr>flags_key := Some ''''\<rparr>) = Some '''' \<and>
   internals_id (leaf\<lparr>flags_key := Some ''''\<rparr>)
      \<lparr>ctx_source = ''terms'', ctx_name = ''keys'', ctx_path = [Str ''schema'', Num 0]\<rparr>
     = Pair ''@keys'' (Num 0)"
  by (simp add: leaf_def internals_id_def)

section \<open>The instrumentation port only accumulates\<close>

lemma log_le_refl: "log_le l l"
  by (simp add: log_le_def)

lemma map_entry_le:
  assumes "\<And>l. log_le l (f l)"
  shows "store_le logs (AList.map_entry k f logs)"
  unfolding store_le_def
proof (induction logs)
  case Nil
  show ?case by simp
next
  case (Cons kl logs)
  have "list_all2 (\<lambda>kl kl'. fst kl' = fst kl \<and> log_le (snd kl) (snd kl')) logs logs"
    by (simp add: list_all2_same log_le_refl)
  with Cons assms show ?case by (simp add: log_le_refl)
qed

lemma rule_read_log_rule:
  "rule_read (log_rule name result l) name' =
     (if name' = name \<and> \<not> to_setter l name
      then Mask (or_code (rule_mask l name) result) else rule_read l name')"
  by (simp add: rule_read_def log_rule_def update_conv')

lemma rule_mask_log_rule:
  "rule_mask (log_rule name result l) name' =
     (if name' = name \<and> \<not> to_setter l name
      then or_code (rule_mask l name) result else rule_mask l name')"
  by (simp add: rule_mask_def rule_read_log_rule)

lemma or_code_absorb: "m OR or_code m result = or_code m result"
  by (simp add: or_code_def or.assoc [symmetric] split: option.split)

text \<open>The masks that the outcomes \<^verbatim>\<open>'error'\<close>, \<^verbatim>\<open>'value'\<close> and \<^verbatim>\<open>'full'\<close> leave; a
  result that is no key of \<^verbatim>\<open>internals.codes\<close> leaves the mask as it is.\<close>

lemma or_code_table:
  "or_code 0 ''error'' = 1" "or_code 0 ''value'' = 2" "or_code 0 ''full'' = 3"
  "or_code 1 ''error'' = 1" "or_code 1 ''value'' = 3"
  "or_code 2 ''error'' = 3" "or_code 2 ''value'' = 2"
  "or_code 3 ''error'' = 3" "or_code 3 ''value'' = 3"
  "or_code m ''other'' = m"
  by (simp_all add: or_code_def codes_def)

lemma log_le_entry: "log_le l (l\<lparr>entry := True\<rparr>)"
  by (simp add: log_le_def rule_mask_def rule_read_def)

lemma log_le_rule: "log_le l (log_rule name result l)"
  unfolding log_le_def
proof (intro conjI allI)
  fix name'
  show "rule_mask l name' OR rule_mask (log_rule name result l) name' =
        rule_mask (log_rule name result l) name'"
    by (simp add: rule_mask_log_rule or_code_absorb)
qed (simp_all add: log_rule_def)

text \<open>The name \<^verbatim>\<open>__proto__\<close> never gets a mask.\<close>

lemma log_rule_proto:
  "map_of (rule l) ''__proto__'' = None \<Longrightarrow> log_rule ''__proto__'' result l = l"
  by (simp add: log_rule_def to_setter_def)

lemma log_le_value: "log_le l (log_value src v l)"
  by (cases src) (auto simp: log_le_def rule_mask_def rule_read_def set_add_def)

text \<open>
  Claim C10. For a node that has a log in the store, each of the three calls returns a
  store, and that store has the same nodes in the same order, with the same paths;
  an entry flag that was set is still set, every rule mask still has the bits it had,
  and the observed valid and invalid values are still there.
\<close>

theorem instrumentation_accumulates:
  assumes "map_of logs sch = Some l"
  shows "(\<exists>logs'. Store_entry sch logs = Inr logs' \<and> store_le logs logs') \<and>
         (\<exists>logs'. Store_log src name result sch logs = Inr logs' \<and> store_le logs logs') \<and>
         (\<exists>logs'. Store_value vsrc v sch logs = Inr logs' \<and> store_le logs logs')"
proof (intro conjI)
  show "\<exists>logs'. Store_entry sch logs = Inr logs' \<and> store_le logs logs'"
    using assms by (simp add: Store_entry_def map_entry_le log_le_entry)
  show "\<exists>logs'. Store_log src name result sch logs = Inr logs' \<and> store_le logs logs'"
    using assms by (cases src) (simp add: map_entry_le log_le_rule)
  show "\<exists>logs'. Store_value vsrc v sch logs = Inr logs' \<and> store_le logs logs'"
    using assms by (simp add: Store_value_def map_entry_le log_le_value)
qed

lemma node3_scanned:
  "map_of shared_scanned 3 =
     Some (new_log\<lparr>paths := [key_path [0, 0, 0], key_path [1]]\<rparr>)"
  by (simp add: shared_scanned_def)

theorem instrumentation_accumulates_witness:
  "map_of shared_scanned 3 =
     Some (new_log\<lparr>paths := [key_path [0, 0, 0], key_path [1]]\<rparr>) \<and>
   (\<exists>logs'. Store_entry 3 shared_scanned = Inr logs' \<and> store_le shared_scanned logs') \<and>
   (\<exists>logs'. Store_log Rule ''min'' ''error'' 3 shared_scanned = Inr logs' \<and>
      store_le shared_scanned logs') \<and>
   (\<exists>logs'. Store_value Valid (LStr ''x'') 3 shared_scanned = Inr logs' \<and>
      store_le shared_scanned logs')"
  using instrumentation_accumulates [OF node3_scanned, of Rule "''min''" "''error''" Valid "LStr ''x''"]
    node3_scanned
  by simp

section \<open>The scan\<close>

subsection \<open>A scan records its visits one after the other\<close>

lemma visit_all_append: "visit_all (vs @ ws) logs = visit_all ws (visit_all vs logs)"
  by (simp add: visit_all_def)

lemma scan_each_visits:
  assumes "\<And>x p logs. Store_scan n h x p logs = map_option (\<lambda>vs. visit_all vs logs) (visits n h x p)"
  shows "scan_each n h p cs logs = map_option (\<lambda>vs. visit_all vs logs) (visits_each n h p cs)"
proof (induction cs arbitrary: logs)
  case Nil
  show ?case by (simp add: visit_all_def)
next
  case (Cons sc cs)
  show ?case
    by (cases "visits n h (fst sc) (concat_id p (internals_id (h (fst sc)) (snd sc)))")
       (simp_all add: assms Cons.IH option.map_comp comp_def visit_all_append)
qed

lemma Store_scan_visits:
  "Store_scan n h x p logs = map_option (\<lambda>vs. visit_all vs logs) (visits n h x p)"
proof (induction n arbitrary: x p logs)
  case 0
  show ?case by simp
next
  case (Suc n)
  show ?case
    by (simp add: scan_each_visits [of n h, OF Suc.IH] option.map_comp comp_def visit_all_def)
qed

subsection \<open>Visits and routes\<close>

lemma visits_each_child:
  assumes "visits_each n h p cs = Some vs" and "sc \<in> set cs"
  shows "\<exists>vc. visits n h (fst sc) (concat_id p (internals_id (h (fst sc)) (snd sc))) = Some vc \<and>
              set vc \<subseteq> set vs"
  using assms
proof (induction cs arbitrary: vs)
  case Nil
  then show ?case by simp
next
  case (Cons c cs)
  from Cons.prems(1) obtain v1 v2 where
    v1: "visits n h (fst c) (concat_id p (internals_id (h (fst c)) (snd c))) = Some v1" and
    v2: "visits_each n h p cs = Some v2" and vs: "vs = v1 @ v2"
    by (auto split: option.splits)
  show ?case
  proof (cases "sc = c")
    case True
    with v1 vs show ?thesis by auto
  next
    case False
    with Cons.prems(2) have "sc \<in> set cs" by simp
    from Cons.IH [OF v2 this] vs show ?thesis by auto
  qed
qed

lemma visits_each_mem:
  assumes "visits_each n h p cs = Some vs" and "v \<in> set vs"
  shows "\<exists>sc\<in>set cs. \<exists>vc. visits n h (fst sc) (concat_id p (internals_id (h (fst sc)) (snd sc))) = Some vc \<and>
              v \<in> set vc"
  using assms
proof (induction cs arbitrary: vs)
  case Nil
  then show ?case by simp
next
  case (Cons c cs)
  from Cons.prems(1) obtain v1 v2 where
    v1: "visits n h (fst c) (concat_id p (internals_id (h (fst c)) (snd c))) = Some v1" and
    v2: "visits_each n h p cs = Some v2" and vs: "vs = v1 @ v2"
    by (auto split: option.splits)
  show ?case
  proof (cases "v \<in> set v1")
    case True
    with v1 show ?thesis by auto
  next
    case False
    with Cons.prems(2) vs have "v \<in> set v2" by simp
    from Cons.IH [OF v2 this] show ?thesis by auto
  qed
qed

lemma visits_fuel: "visits n h x p = Some vs \<Longrightarrow> \<exists>m. n = Suc m"
  by (cases n) simp_all

lemma concat_id_append: "concat_id p i = p @ concat_id [] i"
  by (cases i) simp_all

lemma concat_id_length: "0 < length (concat_id [] i) \<and> length (concat_id [] i) \<le> 2"
  by (cases i) simp_all

text \<open>Every route is visited.\<close>

lemma route_visited:
  assumes "route h x r y"
  shows "visits n h x p = Some vs \<Longrightarrow> (y, p @ r) \<in> set vs"
  using assms
proof (induction arbitrary: n p vs)
  case (here x)
  then show ?case by (cases n) auto
next
  case (down sc x r y)
  from down.prems obtain m where n: "n = Suc m" by (auto dest: visits_fuel)
  with down.prems obtain ws where
    ws: "visits_each m h p (modify_each (h x)) = Some ws" and vs: "vs = (x, p) # ws"
    by auto
  from visits_each_child [OF ws down.hyps(1)] obtain vc where
    vc: "visits m h (fst sc) (concat_id p (internals_id (h (fst sc)) (snd sc))) = Some vc" and
    sub: "set vc \<subseteq> set ws"
    by blast
  from down.IH [OF vc] sub vs show ?case
    by (auto simp: concat_id_append [of p])
qed

text \<open>Every visit is at the end of a route.\<close>

lemma visited_route:
  "visits n h x p = Some vs \<Longrightarrow> v \<in> set vs \<Longrightarrow> \<exists>r. snd v = p @ r \<and> route h x r (fst v)"
proof (induction n arbitrary: x p vs)
  case 0
  then show ?case by simp
next
  case (Suc n)
  from Suc.prems(1) obtain ws where
    ws: "visits_each n h p (modify_each (h x)) = Some ws" and vs: "vs = (x, p) # ws"
    by auto
  show ?case
  proof (cases "v = (x, p)")
    case True
    then show ?thesis by (auto intro: route.here)
  next
    case False
    with Suc.prems(2) vs have "v \<in> set ws" by simp
    from visits_each_mem [OF ws this] obtain sc vc where
      sc: "sc \<in> set (modify_each (h x))" and
      vc: "visits n h (fst sc) (concat_id p (internals_id (h (fst sc)) (snd sc))) = Some vc" and
      v: "v \<in> set vc"
      by blast
    from Suc.IH [OF vc v] obtain r where
      "snd v = concat_id p (internals_id (h (fst sc)) (snd sc)) @ r" and
      "route h (fst sc) r (fst v)"
      by blast
    with sc show ?thesis
      by (auto simp: concat_id_append [of p]
            intro!: exI [of _ "concat_id [] (internals_id (h (fst sc)) (snd sc)) @ r"] route.down)
  qed
qed

text \<open>A scan that ends bounds the length of the routes: a step of a route adds one or two
  elements.\<close>

lemma route_bounded:
  assumes "route h x r y"
  shows "visits n h x p = Some vs \<Longrightarrow> length r < 2 * n"
  using assms
proof (induction arbitrary: n p vs)
  case (here x)
  then show ?case by (cases n) auto
next
  case (down sc x r y)
  from down.prems obtain m where n: "n = Suc m" by (auto dest: visits_fuel)
  with down.prems obtain ws where
    ws: "visits_each m h p (modify_each (h x)) = Some ws"
    by auto
  from visits_each_child [OF ws down.hyps(1)] obtain vc where
    vc: "visits m h (fst sc) (concat_id p (internals_id (h (fst sc)) (snd sc))) = Some vc"
    by blast
  from down.IH [OF vc] n concat_id_length [of "internals_id (h (fst sc)) (snd sc)"]
  show ?case by simp
qed

lemma route_Nil:
  assumes "route h x [] y"
  shows "y = x"
  using assms
proof (cases rule: route.cases)
  case here
  then show ?thesis by simp
next
  case (down sc r)
  with concat_id_length [of "internals_id (h (fst sc)) (snd sc)"] show ?thesis by simp
qed

lemma route_trans: "route h x r y \<Longrightarrow> route h y s z \<Longrightarrow> route h x (r @ s) z"
  by (induction rule: route.induct) (auto intro: route.down)

lemma route_cycle: "route h x r x \<Longrightarrow> route h x (concat (replicate k r)) x"
  by (induction k) (auto intro: route.here route_trans)

lemma no_cycle:
  assumes "visits n h x p = Some vs" and "route h x r x"
  shows "r = []"
proof (rule ccontr)
  assume "r \<noteq> []"
  then have "Suc 0 \<le> length r" by (cases r) simp_all
  have "k \<le> length (concat (replicate k r))" for k
  proof (induction k)
    case 0
    show ?case by simp
  next
    case (Suc k)
    with \<open>Suc 0 \<le> length r\<close> show ?case by simp
  qed
  then have "2 * n \<le> length (concat (replicate (2 * n) r))" .
  moreover have "length (concat (replicate (2 * n) r)) < 2 * n"
    using route_bounded [OF route_cycle [OF assms(2)] assms(1)] .
  ultimately show False by simp
qed

subsection \<open>What a sequence of visits leaves in the store\<close>

lemma map_fst_map_entry: "map fst (AList.map_entry k f xs) = map fst xs"
  by (induction xs) auto

lemma keys_visit:
  "map fst (visit y q logs) =
     (if y \<in> fst ` set logs then map fst logs else map fst logs @ [y])"
proof (cases "map_of logs y")
  case None
  then have "y \<notin> fst ` set logs" by (simp add: map_of_eq_None_iff)
  with None show ?thesis by (simp add: visit_def Let_def map_fst_map_entry)
next
  case (Some l)
  then have "y \<in> fst ` set logs" by (metis map_of_eq_None_iff option.distinct(1))
  with Some show ?thesis by (simp add: visit_def Let_def map_fst_map_entry)
qed

lemma distinct_visit: "distinct (map fst logs) \<Longrightarrow> distinct (map fst (visit y q logs))"
  by (simp add: keys_visit)

lemma log_at_visit:
  "log_at (visit y q logs) z =
     (if z = y \<and> q \<noteq> [] then add_path q (log_at logs z) else log_at logs z)"
  by (cases "map_of logs y")
     (auto simp: visit_def Let_def log_at_def map_of_map_entry map_add_def split: option.splits)

lemma keys_visit_all:
  "fst ` set (visit_all vs logs) = fst ` set logs \<union> fst ` set vs"
proof (induction vs arbitrary: logs)
  case Nil
  show ?case by (simp add: visit_all_def)
next
  case (Cons v vs)
  have "fst ` set (visit (fst v) (snd v) logs) = insert (fst v) (fst ` set logs)"
  proof -
    have "fst ` set (visit (fst v) (snd v) logs) = set (map fst (visit (fst v) (snd v) logs))"
      by simp
    also have "\<dots> = insert (fst v) (fst ` set logs)"
      by (auto simp only: keys_visit set_map set_append list.set split: if_splits)
    finally show ?thesis .
  qed
  with Cons.IH [of "visit (fst v) (snd v) logs"] show ?case
    by (simp add: visit_all_def)
qed

lemma distinct_visit_all:
  "distinct (map fst logs) \<Longrightarrow> distinct (map fst (visit_all vs logs))"
  by (induction vs arbitrary: logs) (simp_all add: visit_all_def distinct_visit)

lemma log_at_visit_all:
  "paths (log_at (visit_all vs logs) z) =
     paths (log_at logs z) @ map snd (filter (\<lambda>v. fst v = z \<and> snd v \<noteq> []) vs) \<and>
   entry (log_at (visit_all vs logs) z) = entry (log_at logs z) \<and>
   rule (log_at (visit_all vs logs) z) = rule (log_at logs z) \<and>
   valid (log_at (visit_all vs logs) z) = valid (log_at logs z) \<and>
   invalid (log_at (visit_all vs logs) z) = invalid (log_at logs z)"
proof (induction vs arbitrary: logs)
  case Nil
  show ?case by (simp add: visit_all_def)
next
  case (Cons v vs)
  have "visit_all (v # vs) logs = visit_all vs (visit (fst v) (snd v) logs)"
    by (simp add: visit_all_def)
  with Cons.IH [of "visit (fst v) (snd v) logs"] show ?case
    by (simp add: log_at_visit add_path_def)
qed

lemma log_at_Some: "map_of logs y = Some l \<Longrightarrow> log_at logs y = l"
  by (simp add: log_at_def)

lemma Store_new_visits:
  assumes "Store_new n h root = Some st"
  obtains vs where "visits n h root [] = Some vs" and "st = visit_all vs []"
  using assms by (auto simp: Store_new_def Store_scan_visits)

lemma scanned_paths:
  assumes "visits n h root [] = Some vs" and "map_of (visit_all vs []) y = Some l"
  shows "paths l = map snd (filter (\<lambda>v. fst v = y \<and> snd v \<noteq> []) vs)"
    and "\<not> entry l" and "rule l = []" and "valid l = []" and "invalid l = []"
  using log_at_visit_all [of vs "[]" y] log_at_Some [OF assms(2)]
  by (simp_all add: log_at_def new_log_def)

lemma scanned_keys:
  assumes "visits n h root [] = Some vs"
  shows "(\<exists>l. map_of (visit_all vs []) y = Some l) \<longleftrightarrow> (\<exists>r. route h root r y)"
proof -
  have "(\<exists>l. map_of (visit_all vs []) y = Some l) \<longleftrightarrow> y \<in> fst ` set (visit_all vs [])"
    by (metis map_of_eq_None_iff not_None_eq)
  also have "\<dots> \<longleftrightarrow> y \<in> fst ` set vs"
    by (simp add: keys_visit_all)
  also have "\<dots> \<longleftrightarrow> (\<exists>r. route h root r y)"
  proof
    assume "y \<in> fst ` set vs"
    then obtain v where "v \<in> set vs" "fst v = y" by auto
    with visited_route [OF assms, of v] show "\<exists>r. route h root r y" by auto
  next
    assume "\<exists>r. route h root r y"
    then obtain r where "route h root r y" ..
    from route_visited [OF this assms] show "y \<in> fst ` set vs" by force
  qed
  finally show ?thesis .
qed

subsection \<open>The scan of the example\<close>

lemma shared_scan: "Store_new 4 shared_heap 0 = Some shared_scanned"
  by code_simp

lemma route_step:
  "(c, cx) \<in> set (modify_each (h x)) \<Longrightarrow> concat_id [] (internals_id (h c) cx) = s \<Longrightarrow>
     route h c r y \<Longrightarrow> route h x (s @ r) y"
  using route.down [of "(c, cx)" h x r y] by auto

lemma shared_route_b: "route shared_heap 0 (key_path [1]) 3"
proof -
  have "route shared_heap 0 ([Str ''@keys'', Num 1] @ []) 3"
    by (rule route_step [where c = 3 and cx = "key_ctx 1"])
       (simp_all add: shared_heap_def internals_id_def leaf_def key_ctx_def route.here)
  then show ?thesis by (simp add: key_path_def)
qed

lemma shared_route_x: "route shared_heap 0 (key_path [0, 0, 0]) 3"
proof -
  have "route shared_heap 2 ([Str ''@keys'', Num 0] @ []) 3"
    by (rule route_step [where c = 3 and cx = "key_ctx 0"])
       (simp_all add: shared_heap_def internals_id_def leaf_def key_ctx_def route.here)
  then have "route shared_heap 1 ([Str ''@keys'', Num 0] @ [Str ''@keys'', Num 0] @ []) 3"
    by (rule route_step [where c = 2 and cx = "key_ctx 0", rotated 2])
       (simp_all add: shared_heap_def internals_id_def leaf_def key_ctx_def)
  then have "route shared_heap 0
      ([Str ''@keys'', Num 0] @ [Str ''@keys'', Num 0] @ [Str ''@keys'', Num 0] @ []) 3"
    by (rule route_step [where c = 1 and cx = "key_ctx 0", rotated 2])
       (simp_all add: shared_heap_def internals_id_def leaf_def key_ctx_def)
  then show ?thesis by (simp add: key_path_def)
qed

section \<open>The scan ends on a schema of finite depth\<close>

lemma visits_each_total:
  "(\<And>sc q. sc \<in> set cs \<Longrightarrow> visits n h (fst sc) q \<noteq> None) \<Longrightarrow> visits_each n h p cs \<noteq> None"
  by (induction cs) (auto split: option.splits)

lemma visits_total:
  assumes "\<And>x r sc. route h root r x \<Longrightarrow> sc \<in> set (modify_each (h x)) \<Longrightarrow>
             rank (fst sc) < rank x"
  shows "route h root r x \<Longrightarrow> rank x < n \<Longrightarrow> visits n h x p \<noteq> None"
proof (induction n arbitrary: x p r)
  case 0
  then show ?case by simp
next
  case (Suc n)
  have "visits n h (fst sc) q \<noteq> None" if sc: "sc \<in> set (modify_each (h x))" for sc q
  proof -
    from assms [OF Suc.prems(1) sc] Suc.prems(2) have "rank (fst sc) < n" by simp
    moreover have "route h x (concat_id [] (internals_id (h (fst sc)) (snd sc)) @ []) (fst sc)"
      using sc by (intro route.down route.here)
    with Suc.prems(1) have
      "route h root (r @ concat_id [] (internals_id (h (fst sc)) (snd sc)) @ []) (fst sc)"
      by (rule route_trans)
    ultimately show ?thesis by (rule Suc.IH [rotated])
  qed
  then have "visits_each n h p (modify_each (h x)) \<noteq> None"
    by (rule visits_each_total)
  then show ?case by auto
qed

text \<open>
  When every sub schema of a node on a route from the root has a smaller rank than the
  node that enumerates it (the schema below the root is acyclic and of finite depth),
  the scan of the root ends within any depth above the rank of the root.
\<close>

lemma scan_ends:
  assumes "\<forall>x r. route h root r x \<longrightarrow> (\<forall>sc\<in>set (modify_each (h x)). rank (fst sc) < rank x)"
    and "rank root < n"
  shows "\<exists>st. Store_new n h root = Some st"
proof -
  have "visits n h root [] \<noteq> None"
  proof (rule visits_total [where rank = rank and root = root and r = "[]"])
    show "rank (fst sc) < rank x" if "route h root r x" "sc \<in> set (modify_each (h x))" for x r sc
      using assms(1) that by blast
    show "route h root [] root" by (rule route.here)
    show "rank root < n" by (rule assms(2))
  qed
  then show ?thesis
    by (auto simp: Store_new_def Store_scan_visits)
qed

lemma shared_rank:
  "\<forall>x r. route shared_heap 0 r x \<longrightarrow>
     (\<forall>sc\<in>set (modify_each (shared_heap x)). (\<lambda>a. 3 - a) (fst sc) < (\<lambda>a. 3 - a) x)"
  by (simp add: shared_heap_def leaf_def)

lemma shared_scan_ends: "\<exists>st. Store_new 4 shared_heap 0 = Some st"
  using scan_ends [of shared_heap 0 "\<lambda>a. 3 - a" 4, OF shared_rank] by simp

lemma visits_each_more:
  assumes "\<And>x p vs. visits n h x p = Some vs \<Longrightarrow> visits (n + k) h x p = Some vs"
  shows "visits_each n h p cs = Some vs \<Longrightarrow> visits_each (n + k) h p cs = Some vs"
proof (induction cs arbitrary: vs)
  case Nil
  then show ?case by simp
next
  case (Cons c cs)
  from Cons.prems obtain v1 v2 where
    v1: "visits n h (fst c) (concat_id p (internals_id (h (fst c)) (snd c))) = Some v1" and
    v2: "visits_each n h p cs = Some v2" and vs: "vs = v1 @ v2"
    by (auto split: option.splits)
  from assms [OF v1] Cons.IH [OF v2] vs show ?case by simp
qed

lemma visits_more: "visits n h x p = Some vs \<Longrightarrow> visits (n + k) h x p = Some vs"
proof (induction n arbitrary: x p vs)
  case 0
  then show ?case by simp
next
  case (Suc n)
  from Suc.prems obtain ws where
    ws: "visits_each n h p (modify_each (h x)) = Some ws" and vs: "vs = (x, p) # ws"
    by auto
  from visits_each_more [of n h k, OF Suc.IH ws] vs show ?case by simp
qed

text \<open>The result of a scan that ends does not depend on the depth that was allowed.\<close>

lemma scan_depth_irrelevant:
  assumes "Store_new n h root = Some st" and "Store_new m h root = Some st'"
  shows "st' = st"
proof -
  from assms obtain vs vs' where
    vs: "visits n h root [] = Some vs" "st = visit_all vs []" and
    vs': "visits m h root [] = Some vs'" "st' = visit_all vs' []"
    by (auto elim!: Store_new_visits)
  from visits_more [OF vs(1), of m] visits_more [OF vs'(1), of n] have "vs' = vs"
    by (simp add: add.commute)
  with vs vs' show ?thesis by simp
qed

lemma shared_scan_deeper:
  "Store_new 4 shared_heap 0 = Some shared_scanned \<and> Store_new 9 shared_heap 0 = Some shared_scanned"
proof -
  have "Store_new 9 shared_heap 0 = Some shared_scanned" by code_simp
  from scan_depth_irrelevant [OF shared_scan this] shared_scan this show ?thesis by simp
qed

section \<open>One log per node, with every path\<close>

text \<open>What a scan that has ended leaves in the store.\<close>

lemma scanned_one_log:
  assumes "Store_new n h root = Some st"
  shows "distinct (map fst st) \<and>
         (\<forall>y r. route h root r y \<longrightarrow>
            (\<exists>!l. (y, l) \<in> set st) \<and>
            (\<exists>l. map_of st y = Some l \<and> (r \<noteq> [] \<longrightarrow> r \<in> set (paths l)))) \<and>
         (\<forall>y r1 r2. route h root r1 y \<and> route h root r2 y \<and> r1 \<noteq> r2 \<longrightarrow>
            (\<exists>l. map_of st y = Some l \<and> r1 \<in> set (paths l) \<and> r2 \<in> set (paths l))) \<and>
         (\<forall>y l q. map_of st y = Some l \<and> q \<in> set (paths l) \<longrightarrow> route h root q y)"
proof -
  from assms obtain vs where vs: "visits n h root [] = Some vs" and st: "st = visit_all vs []"
    by (rule Store_new_visits)
  have d: "distinct (map fst st)"
    by (simp add: st distinct_visit_all)
  have rec: "\<exists>l. map_of st y = Some l \<and> (r \<noteq> [] \<longrightarrow> r \<in> set (paths l))"
    if r: "route h root r y" for y r
  proof -
    from scanned_keys [OF vs, of y] r obtain l where l: "map_of st y = Some l"
      unfolding st by blast
    have "(y, r) \<in> set vs"
      using route_visited [OF r vs] by simp
    then have "r \<noteq> [] \<longrightarrow> r \<in> set (paths l)"
      using scanned_paths(1) [OF vs l [unfolded st]] by force
    with l show ?thesis by blast
  qed
  have one: "\<exists>!l. (y, l) \<in> set st" if r: "route h root r y" for y r
  proof -
    from rec [OF r] obtain l where "map_of st y = Some l" by blast
    then have "(y, l) \<in> set st" by (rule map_of_SomeD)
    moreover have "l' = l" if "(y, l') \<in> set st" for l'
      using that \<open>(y, l) \<in> set st\<close> d by (meson eq_key_imp_eq_value)
    ultimately show ?thesis by blast
  qed
  have two: "\<exists>l. map_of st y = Some l \<and> r1 \<in> set (paths l) \<and> r2 \<in> set (paths l)"
    if r: "route h root r1 y" "route h root r2 y" "r1 \<noteq> r2" for y r1 r2
  proof -
    have ne: "r \<noteq> []" if "route h root r y" for r
    proof
      assume "r = []"
      with that have "y = root" by (auto dest: route_Nil)
      with r have "r1 = []" "r2 = []" by (auto dest: no_cycle [OF vs])
      with r(3) show False by simp
    qed
    from rec [OF r(1)] rec [OF r(2)] ne [OF r(1)] ne [OF r(2)] show ?thesis by auto
  qed
  have snd: "route h root q y" if "map_of st y = Some l" "q \<in> set (paths l)" for y l q
  proof -
    from that scanned_paths(1) [OF vs that(1) [unfolded st]]
    have "(y, q) \<in> set vs" by auto
    from visited_route [OF vs this] show ?thesis by simp
  qed
  from d rec one two snd show ?thesis by blast
qed

text \<open>The root is the first node of the store, and before any validation its log is
  as it was created.\<close>

lemma keys_visit_all_prefix: "\<exists>ex. map fst (visit_all vs logs) = map fst logs @ ex"
proof (induction vs arbitrary: logs)
  case Nil
  show ?case by (simp add: visit_all_def)
next
  case (Cons v vs)
  obtain e1 where e1: "map fst (visit (fst v) (snd v) logs) = map fst logs @ e1"
    by (cases "fst v \<in> fst ` set logs") (simp_all add: keys_visit)
  obtain e2 where
    "map fst (visit_all vs (visit (fst v) (snd v) logs)) = map fst (visit (fst v) (snd v) logs) @ e2"
    using Cons.IH by blast
  with e1 have "map fst (visit_all (v # vs) logs) = map fst logs @ e1 @ e2"
    by (simp add: visit_all_def)
  then show ?case ..
qed

lemma scanned_root:
  assumes "Store_new n h root = Some st"
  shows "\<exists>rest. st = (root, new_log) # rest"
proof -
  from assms obtain vs where vs: "visits n h root [] = Some vs" and st: "st = visit_all vs []"
    by (rule Store_new_visits)
  from vs obtain ws where ws: "vs = (root, []) # ws"
    by (cases n) auto
  then have "st = visit_all ws [(root, new_log)]"
    by (simp add: st visit_all_def visit_def)
  with keys_visit_all_prefix [of ws "[(root, new_log)]"] obtain ex where
    "map fst st = root # ex"
    by auto
  then obtain l rest where lr: "st = (root, l) # rest"
    by (cases st) auto
  then have m: "map_of st root = Some l" by simp
  have "filter (\<lambda>v. fst v = root \<and> snd v \<noteq> []) vs = []"
  proof (rule ccontr)
    assume "filter (\<lambda>v. fst v = root \<and> snd v \<noteq> []) vs \<noteq> []"
    then obtain v where v: "v \<in> set vs" "fst v = root" "snd v \<noteq> []"
      by (metis (mono_tags, lifting) filter_False)
    from visited_route [OF vs v(1)] v(2) have "route h root (snd v) root" by auto
    from no_cycle [OF vs this] v(3) show False by simp
  qed
  with scanned_paths [OF vs m [unfolded st]] have "l = new_log"
    by (simp add: new_log_def)
  with lr show ?thesis by simp
qed

lemma scanned_unentered:
  assumes "Store_new n h root = Some st"
  shows "\<forall>xl\<in>set st. \<not> entry (snd xl)"
proof
  from assms obtain vs where vs: "visits n h root [] = Some vs" and st: "st = visit_all vs []"
    by (rule Store_new_visits)
  fix xl assume "xl \<in> set st"
  moreover have "distinct (map fst st)" by (simp add: st distinct_visit_all)
  ultimately have "map_of st (fst xl) = Some (snd xl)" by simp
  from scanned_paths(2) [OF vs this [unfolded st]] show "\<not> entry (snd xl)" .
qed

text \<open>
  Claim C3. On a schema of finite depth (every sub schema of a node on a route from the
  root has a smaller rank than the node that enumerates it), the scan of the root ends
  and produces a store, the same for every depth allowed above the rank of the root.
  The store holds every node once (the nodes of its entries are distinct, so two nodes
  never share an entry). Every node at the end of a route from the root has exactly
  one log, and that log holds the path of every route to the node that is not empty;
  in particular a node with two routes has both paths in its one log. Every path of a
  log is a route from the root to its node.
\<close>

theorem scan_one_log_per_node:
  assumes "\<forall>x r. route h root r x \<longrightarrow> (\<forall>sc\<in>set (modify_each (h x)). rank (fst sc) < rank x)"
  shows "\<exists>st. (\<forall>n. rank root < n \<longrightarrow> Store_new n h root = Some st) \<and>
           (\<forall>n st'. Store_new n h root = Some st' \<longrightarrow> st' = st) \<and>
           distinct (map fst st) \<and>
           (\<forall>y r. route h root r y \<longrightarrow>
              (\<exists>!l. (y, l) \<in> set st) \<and>
              (\<exists>l. map_of st y = Some l \<and> (r \<noteq> [] \<longrightarrow> r \<in> set (paths l)))) \<and>
           (\<forall>y r1 r2. route h root r1 y \<and> route h root r2 y \<and> r1 \<noteq> r2 \<longrightarrow>
              (\<exists>l. map_of st y = Some l \<and> r1 \<in> set (paths l) \<and> r2 \<in> set (paths l))) \<and>
           (\<forall>y l q. map_of st y = Some l \<and> q \<in> set (paths l) \<longrightarrow> route h root q y)"
proof -
  obtain st where st: "Store_new (Suc (rank root)) h root = Some st"
    using scan_ends [OF assms, of "Suc (rank root)"] by auto
  have same: "st' = st" if "Store_new n h root = Some st'" for n st'
    by (rule scan_depth_irrelevant [OF st that])
  have every: "Store_new n h root = Some st" if lt: "rank root < n" for n
  proof -
    obtain st' where "Store_new n h root = Some st'"
      using scan_ends [OF assms lt] by auto
    with same [OF this] show ?thesis by simp
  qed
  from every have e: "\<forall>n. rank root < n \<longrightarrow> Store_new n h root = Some st"
    by blast
  from same have s: "\<forall>n st'. Store_new n h root = Some st' \<longrightarrow> st' = st"
    by blast
  show ?thesis
    by (rule exI [of _ st], rule conjI [OF e], rule conjI [OF s], rule scanned_one_log [OF st])
qed

theorem scan_one_log_per_node_witness:
  "Store_new 4 shared_heap 0 = Some shared_scanned \<and>
   route shared_heap 0 (key_path [0, 0, 0]) 3 \<and>
   route shared_heap 0 (key_path [1]) 3 \<and>
   distinct (map fst shared_scanned) \<and>
   (\<exists>l. map_of shared_scanned 3 = Some l \<and>
        (key_path [0, 0, 0]) \<in> set (paths l) \<and> (key_path [1]) \<in> set (paths l))"
proof -
  have ne: "key_path [0, 0, 0] \<noteq> key_path [1]"
    by (simp add: key_path_def)
  from scan_one_log_per_node [of shared_heap 0 "\<lambda>a. 3 - a", OF shared_rank] obtain st where
    a: "\<forall>n st'. Store_new n shared_heap 0 = Some st' \<longrightarrow> st' = st" and
    b: "distinct (map fst st)" and
    c: "\<forall>y r1 r2. route shared_heap 0 r1 y \<and> route shared_heap 0 r2 y \<and> r1 \<noteq> r2 \<longrightarrow>
         (\<exists>l. map_of st y = Some l \<and> r1 \<in> set (paths l) \<and> r2 \<in> set (paths l))"
    by (elim exE conjE)
  from a shared_scan have st: "st = shared_scanned" by auto
  from c [THEN spec, THEN spec, THEN spec, THEN mp, OF conjI [OF shared_route_x conjI [OF shared_route_b ne]]]
  have "\<exists>l. map_of shared_scanned 3 = Some l \<and>
        (key_path [0, 0, 0]) \<in> set (paths l) \<and> (key_path [1]) \<in> set (paths l)"
    by (simp only: st)
  with shared_scan shared_route_x shared_route_b b [unfolded st] show ?thesis
    by (intro conjI)
qed

section \<open>The paths of a log\<close>

text \<open>
  When the scan of a root ends, the log of the root has no paths and no log holds the
  empty path. The paths of a log are the paths of the visits of its node, one for each
  visit with a path that is not empty, in the order of the visits: a path is added at
  every visit and nothing merges two equal paths.
\<close>

lemma scanned_paths_visits:
  assumes "Store_new n h root = Some st"
  shows "(\<exists>l. map_of st root = Some l \<and> paths l = []) \<and>
         (\<forall>y l. map_of st y = Some l \<longrightarrow> [] \<notin> set (paths l)) \<and>
         (\<exists>vs. visits n h root [] = Some vs \<and>
            (\<forall>y l. map_of st y = Some l \<longrightarrow>
               paths l = map snd (filter (\<lambda>v. fst v = y \<and> snd v \<noteq> []) vs)))"
proof -
  from assms obtain vs where vs: "visits n h root [] = Some vs" and st: "st = visit_all vs []"
    by (rule Store_new_visits)
  have ps: "paths l = map snd (filter (\<lambda>v. fst v = y \<and> snd v \<noteq> []) vs)"
    if "map_of st y = Some l" for y l
    using scanned_paths(1) [OF vs that [unfolded st]] .
  have "route h root [] root" by (rule route.here)
  with scanned_keys [OF vs, of root] obtain l where l: "map_of st root = Some l"
    unfolding st by blast
  have "filter (\<lambda>v. fst v = root \<and> snd v \<noteq> []) vs = []"
  proof (rule ccontr)
    assume "filter (\<lambda>v. fst v = root \<and> snd v \<noteq> []) vs \<noteq> []"
    then obtain v where v: "v \<in> set vs" "fst v = root" "snd v \<noteq> []"
      by (metis (mono_tags, lifting) filter_False)
    from visited_route [OF vs v(1)] v(2) have "route h root (snd v) root" by auto
    from no_cycle [OF vs this] v(3) show False by simp
  qed
  with ps [OF l] have "paths l = []" by simp
  with l have a: "\<exists>l. map_of st root = Some l \<and> paths l = []" by blast
  have b: "[] \<notin> set (paths l)" if "map_of st y = Some l" for y l
    using ps [OF that] by auto
  from a b vs ps show ?thesis by blast
qed

lemma shared_root_no_path:
  "Store_new 4 shared_heap 0 = Some shared_scanned \<and>
   (\<exists>l. map_of shared_scanned 0 = Some l \<and> paths l = [])"
  using scanned_paths_visits [OF shared_scan] shared_scan
  by blast

text \<open>
  Claim C6. The first half holds (see above): the log of the root has no paths, and
  the empty path is never recorded. The second half says that recording a path again
  changes nothing, so that the paths of a log hold one copy of each path. The code
  keeps the paths in a \<^verbatim>\<open>Set\<close>, as it keeps the observed values, but the paths are
  arrays, every visit builds a new one, and a set compares arrays by reference: a path
  that is recorded again is added again. A root that enumerates the same sub schema
  twice, the sub schema having the identifier \<^verbatim>\<open>'t'\<close>, reaches it twice under the
  path \<^verbatim>\<open>['t']\<close>, and the log of the sub schema holds this path twice.
\<close>

theorem scan_path_twice:
  "Store_new 2 twice_heap 0 =
     Some [(0, new_log), (1, new_log\<lparr>paths := [[Str ''t''], [Str ''t'']]\<rparr>)]"
  by code_simp

section \<open>The loop of the report\<close>

lemma fold_removeAll_filter: "fold removeAll obs s = filter (\<lambda>v. v \<notin> set obs) s"
proof (induction obs arbitrary: s)
  case Nil
  show ?case by simp
next
  case (Cons a obs)
  have "fold removeAll (a # obs) s = filter (\<lambda>v. v \<notin> set obs) (removeAll a s)"
    using Cons.IH by simp
  also have "\<dots> = filter (\<lambda>v. v \<notin> set (a # obs)) s"
    by (induction s) auto
  finally show ?case .
qed

lemma fold_delete:
  "fold (\<lambda>v g. g\<lparr>var_values := removeAll v (var_values g)\<rparr>) obs f =
     f\<lparr>var_values := fold removeAll obs (var_values f)\<rparr>"
  by (induction obs arbitrary: f) simp_all

lemma check_values_frame:
  "\<exists>vals. check_values type sub l f =
     f\<lparr>var_values := vals,
       var_missing := var_missing f
         @ values_gap (declared type (w_nodes (fr_world f) sub)) (observed type l) (values_rule type)\<rparr>"
proof (cases "declared type (w_nodes (fr_world f) sub)")
  case None
  then have "check_values type sub l f =
     f\<lparr>var_values := var_values f,
       var_missing := var_missing f
         @ values_gap (declared type (w_nodes (fr_world f) sub)) (observed type l) (values_rule type)\<rparr>"
    by (simp add: check_values_def values_gap_def)
  then show ?thesis ..
next
  case (Some s)
  then have "check_values type sub l f =
     f\<lparr>var_values := filter (\<lambda>v. v \<notin> set (observed type l)) s,
       var_missing := var_missing f
         @ values_gap (declared type (w_nodes (fr_world f) sub)) (observed type l) (values_rule type)\<rparr>"
    by (simp add: check_values_def values_gap_def fold_delete fold_removeAll_filter
        missing_push_def Let_def)
  then show ?thesis ..
qed

lemma check_rule_frame:
  "check_rule l name f = f\<lparr>var_missing := var_missing f @ rule_gap l name\<rparr>"
  by (simp add: check_rule_def rule_gap_def missing_push_def split: option.split)

lemma fold_check_rule:
  "fold (check_rule l) names f =
     f\<lparr>var_missing := var_missing f @ concat (map (rule_gap l) names)\<rparr>"
  by (induction names arbitrary: f) (simp_all add: check_rule_frame)

lemma check_rules_frame:
  "check_rules sub l f =
     f\<lparr>var_rules := rule_names (w_nodes (fr_world f) sub),
       var_missing := var_missing f
         @ concat (map (rule_gap l) (rule_names (w_nodes (fr_world f) sub)))\<rparr>"
  by (simp add: check_rules_def Let_def fold_check_rule rule_names_def)

lemma report_log_frame:
  "\<exists>vals rs. report_log sub l f =
     f\<lparr>var_values := vals, var_rules := rs,
       var_missing := var_missing f @ fst (log_step (w_nodes (fr_world f) sub) l (var_skipped f)),
       var_skipped := var_skipped f @ snd (log_step (w_nodes (fr_world f) sub) l (var_skipped f))\<rparr>"
proof -
  consider (sub) "internals_sub (paths l) (var_skipped f)"
    | (unreached) "\<not> internals_sub (paths l) (var_skipped f)" "\<not> entry l"
    | (reached) "\<not> internals_sub (paths l) (var_skipped f)" "entry l"
    by blast
  then show ?thesis
  proof cases
    case sub
    then have "report_log sub l f =
       f\<lparr>var_values := var_values f, var_rules := var_rules f,
         var_missing := var_missing f @ fst (log_step (w_nodes (fr_world f) sub) l (var_skipped f)),
         var_skipped := var_skipped f @ snd (log_step (w_nodes (fr_world f) sub) l (var_skipped f))\<rparr>"
      by (simp add: report_log_def log_step_def)
    then show ?thesis by blast
  next
    case unreached
    then have "report_log sub l f =
       f\<lparr>var_values := var_values f, var_rules := var_rules f,
         var_missing := var_missing f @ fst (log_step (w_nodes (fr_world f) sub) l (var_skipped f)),
         var_skipped := var_skipped f @ snd (log_step (w_nodes (fr_world f) sub) l (var_skipped f))\<rparr>"
      by (simp add: report_log_def log_step_def missing_push_def Let_def)
    then show ?thesis by blast
  next
    case reached
    obtain v1 where v1: "check_values Valid sub l f =
       f\<lparr>var_values := v1,
         var_missing := var_missing f
           @ values_gap (valids (w_nodes (fr_world f) sub)) (valid l) ''valids''\<rparr>"
      using check_values_frame [of Valid sub l f] by auto
    define f1 where "f1 = check_values Valid sub l f"
    obtain v2 where v2: "check_values Invalid sub l f1 =
       f1\<lparr>var_values := v2,
         var_missing := var_missing f1
           @ values_gap (invalids (w_nodes (fr_world f1) sub)) (invalid l) ''invalids''\<rparr>"
      using check_values_frame [of Invalid sub l f1] by auto
    from reached have "report_log sub l f =
       f\<lparr>var_values := v2, var_rules := rule_names (w_nodes (fr_world f) sub),
         var_missing := var_missing f @ fst (log_step (w_nodes (fr_world f) sub) l (var_skipped f)),
         var_skipped := var_skipped f @ snd (log_step (w_nodes (fr_world f) sub) l (var_skipped f))\<rparr>"
      unfolding report_log_def
      by (simp add: f1_def [symmetric] v2 check_rules_frame)
         (simp add: f1_def v1 log_step_def log_gaps_def)
    then show ?thesis by blast
  qed
qed

lemma report_logs_frame:
  "\<exists>vals rs. report_logs logs f =
     f\<lparr>var_values := vals, var_rules := rs,
       var_missing := var_missing f @ fst (logs_step (w_nodes (fr_world f)) logs (var_skipped f)),
       var_skipped := var_skipped f @ snd (logs_step (w_nodes (fr_world f)) logs (var_skipped f))\<rparr>"
proof (induction logs arbitrary: f)
  case Nil
  have "report_logs [] f =
     f\<lparr>var_values := var_values f, var_rules := var_rules f,
       var_missing := var_missing f @ fst (logs_step (w_nodes (fr_world f)) [] (var_skipped f)),
       var_skipped := var_skipped f @ snd (logs_step (w_nodes (fr_world f)) [] (var_skipped f))\<rparr>"
    by simp
  then show ?case by blast
next
  case (Cons xl logs)
  define h where "h = w_nodes (fr_world f)"
  define f1 where "f1 = report_log (fst xl) (snd xl) f"
  obtain v1 r1 where f1: "f1 =
     f\<lparr>var_values := v1, var_rules := r1,
       var_missing := var_missing f @ fst (log_step (h (fst xl)) (snd xl) (var_skipped f)),
       var_skipped := var_skipped f @ snd (log_step (h (fst xl)) (snd xl) (var_skipped f))\<rparr>"
    using report_log_frame [of "fst xl" "snd xl" f] unfolding f1_def h_def by blast
  obtain v2 r2 where f2: "report_logs logs f1 =
     f1\<lparr>var_values := v2, var_rules := r2,
       var_missing := var_missing f1 @ fst (logs_step (w_nodes (fr_world f1)) logs (var_skipped f1)),
       var_skipped := var_skipped f1 @ snd (logs_step (w_nodes (fr_world f1)) logs (var_skipped f1))\<rparr>"
    using Cons.IH [of f1] by blast
  have "report_logs (xl # logs) f =
     f\<lparr>var_values := v2, var_rules := r2,
       var_missing := var_missing f @ fst (logs_step h (xl # logs) (var_skipped f)),
       var_skipped := var_skipped f @ snd (logs_step h (xl # logs) (var_skipped f))\<rparr>"
    by (simp add: f1_def [symmetric] f2) (simp add: f1 h_def)
  then show ?case unfolding h_def by blast
qed

lemma report_logs_fields:
  "fr_world (report_logs logs f) = fr_world f"
  "var_coverage (report_logs logs f) = var_coverage f"
  "var_missing (report_logs logs f) =
     var_missing f @ fst (logs_step (w_nodes (fr_world f)) logs (var_skipped f))"
  "var_skipped (report_logs logs f) =
     var_skipped f @ snd (logs_step (w_nodes (fr_world f)) logs (var_skipped f))"
proof -
  obtain vals rs where "report_logs logs f =
     f\<lparr>var_values := vals, var_rules := rs,
       var_missing := var_missing f @ fst (logs_step (w_nodes (fr_world f)) logs (var_skipped f)),
       var_skipped := var_skipped f @ snd (logs_step (w_nodes (fr_world f)) logs (var_skipped f))\<rparr>"
    using report_logs_frame by blast
  then show
    "fr_world (report_logs logs f) = fr_world f"
    "var_coverage (report_logs logs f) = var_coverage f"
    "var_missing (report_logs logs f) =
       var_missing f @ fst (logs_step (w_nodes (fr_world f)) logs (var_skipped f))"
    "var_skipped (report_logs logs f) =
       var_skipped f @ snd (logs_step (w_nodes (fr_world f)) logs (var_skipped f))"
    by simp_all
qed

lemma store_loop_fields:
  "fr_world (store_loop w logs) = w"
  "var_missing (store_loop w logs) = fst (logs_step (w_nodes w) logs [])"
  "var_skipped (store_loop w logs) = snd (logs_step (w_nodes w) logs [])"
  by (simp_all add: store_loop_def report_logs_fields new_frame_def)

lemma store_missing_step: "store_missing w logs = fst (logs_step (w_nodes w) logs [])"
  by (simp add: store_missing_def store_loop_fields)

lemma logs_step_append:
  "logs_step h (xs @ ys) sk =
     (fst (logs_step h xs sk) @ fst (logs_step h ys (sk @ snd (logs_step h xs sk))),
      snd (logs_step h xs sk) @ snd (logs_step h ys (sk @ snd (logs_step h xs sk))))"
  by (induction xs arbitrary: sk) simp_all

text \<open>The loop at a log of the store: what the log adds to the two arrays, and that the
  items stay in the gaps of the store.\<close>

lemma store_loop_snoc:
  "var_missing (store_loop w (pre @ [(sub, l)])) =
     var_missing (store_loop w pre)
       @ fst (log_step (w_nodes w sub) l (var_skipped (store_loop w pre)))"
  "var_skipped (store_loop w (pre @ [(sub, l)])) =
     var_skipped (store_loop w pre)
       @ snd (log_step (w_nodes w sub) l (var_skipped (store_loop w pre)))"
  by (simp_all add: store_loop_fields logs_step_append)

lemma store_missing_split:
  "\<exists>rest. store_missing w (pre @ (sub, l) # post) =
     var_missing (store_loop w (pre @ [(sub, l)])) @ rest"
proof -
  have "pre @ (sub, l) # post = (pre @ [(sub, l)]) @ post" by simp
  then have "store_missing w (pre @ (sub, l) # post) =
      var_missing (store_loop w (pre @ [(sub, l)]))
        @ fst (logs_step (w_nodes w) post ([] @ snd (logs_step (w_nodes w) (pre @ [(sub, l)]) [])))"
    by (simp only: store_missing_step logs_step_append store_loop_fields fst_conv)
  then show ?thesis ..
qed

lemma suppressed_sub:
  "suppressed w pre l \<longleftrightarrow> internals_sub (paths l) (var_skipped (store_loop w pre))"
  by (simp add: suppressed_def internals_sub_def list_ex_iff)
     (metis append_eq_conv_conj prefix_def)

lemma loop_reached:
  assumes "entry l" and "\<not> suppressed w pre l"
  shows "var_missing (store_loop w (pre @ [(sub, l)])) =
           var_missing (store_loop w pre) @ log_gaps (w_nodes w sub) l"
    and "var_skipped (store_loop w (pre @ [(sub, l)])) = var_skipped (store_loop w pre)"
  using assms by (simp_all add: store_loop_snoc log_step_def suppressed_sub)

lemma loop_suppressed:
  assumes "suppressed w pre l"
  shows "var_missing (store_loop w (pre @ [(sub, l)])) = var_missing (store_loop w pre)"
    and "var_skipped (store_loop w (pre @ [(sub, l)])) = var_skipped (store_loop w pre)"
  using assms by (simp_all add: store_loop_snoc log_step_def suppressed_sub)

lemma rule_gap_label:
  "Item (Label s) (Some name) p \<in> set (rule_gap l name') \<longleftrightarrow>
     name' = name \<and> rule_label l name = Some s \<and>
     p = (if paths l \<noteq> [] then Some (paths l) else None)"
  by (auto simp: rule_gap_def split: option.splits)

lemma values_gap_no_label: "Item (Label s) r p \<notin> set (values_gap d obs rn)"
  by (simp add: values_gap_def split: option.splits)

lemma values_gap_item:
  "Item (Values vs) (Some rn) p \<in> set (values_gap dcl obs rn') \<longleftrightarrow>
     rn' = rn \<and> p = None \<and> vs \<noteq> [] \<and>
     (\<exists>d. dcl = Some d \<and> vs = filter (\<lambda>v. v \<notin> set obs) d)"
  by (auto simp: values_gap_def split: option.splits)

lemma rule_gap_no_values: "Item (Values vs) r p \<notin> set (rule_gap l name)"
  by (simp add: rule_gap_def split: option.splits)

lemma log_gaps_label:
  assumes "name \<in> set (rule_names sch)"
  shows "Item (Label s) (Some name) p \<in> set (log_gaps sch l) \<longleftrightarrow>
           rule_label l name = Some s \<and> p = (if paths l \<noteq> [] then Some (paths l) else None)"
  using assms by (auto simp: log_gaps_def values_gap_no_label rule_gap_label)

lemma log_gaps_values:
  assumes "declared src sch = Some d"
  shows "Item (Values vs) (Some (values_rule src)) p \<in> set (log_gaps sch l) \<longleftrightarrow>
           vs = filter (\<lambda>v. v \<notin> set (observed src l)) d \<and> p = None \<and> vs \<noteq> []"
  using assms by (cases src) (auto simp: log_gaps_def values_gap_item rule_gap_no_values)

section \<open>What the calls of a validation run leave in a log\<close>

lemma map_of_map_entry_at:
  "map_of logs sub = Some l \<Longrightarrow>
     map_of (AList.map_entry sch f logs) sub = Some (if sch = sub then f l else l)"
  by (auto simp: map_of_map_entry)

lemma port_call_log:
  assumes "port_call c logs = Inr logs'" and "map_of logs sub = Some l"
  shows "map_of logs' sub = Some (effect sub c l)" and "map fst logs' = map fst logs"
proof -
  show "map_of logs' sub = Some (effect sub c l)"
  proof (cases c)
    case (Entry sch)
    with assms show ?thesis
      by (auto simp: Store_entry_def map_of_map_entry_at split: option.splits)
  next
    case (Log src name result sch)
    with assms show ?thesis
      by (cases src) (auto simp: map_of_map_entry_at split: option.splits)
  next
    case (Value src v sch)
    with assms show ?thesis
      by (auto simp: Store_value_def map_of_map_entry_at split: option.splits)
  qed
  show "map fst logs' = map fst logs"
  proof (cases c)
    case (Entry sch)
    with assms(1) show ?thesis
      by (auto simp: Store_entry_def map_fst_map_entry split: option.splits)
  next
    case (Log src name result sch)
    with assms(1) show ?thesis
      by (cases src) (auto simp: map_fst_map_entry split: option.splits)
  next
    case (Value src v sch)
    with assms(1) show ?thesis
      by (auto simp: Store_value_def map_fst_map_entry split: option.splits)
  qed
qed

lemma port_calls_log:
  "port_calls cs logs = Inr logs' \<Longrightarrow> map_of logs sub = Some l \<Longrightarrow>
     map_of logs' sub = Some (fold (effect sub) cs l) \<and> map fst logs' = map fst logs"
proof (induction cs arbitrary: logs l)
  case Nil
  then show ?case by simp
next
  case (Cons c cs)
  from Cons.prems(1) obtain logs1 where
    c: "port_call c logs = Inr logs1" and cs: "port_calls cs logs1 = Inr logs'"
    by (auto split: sum.splits)
  from port_call_log [OF c Cons.prems(2)] have
    l1: "map_of logs1 sub = Some (effect sub c l)" and k1: "map fst logs1 = map fst logs"
    by simp_all
  from Cons.IH [OF cs l1] k1 show ?case by simp
qed

lemma log_value_fields:
  "paths (log_value src v l) = paths l" "entry (log_value src v l) = entry l"
  "rule (log_value src v l) = rule l"
  "set (observed src' (log_value src v l)) =
     (if src' = src then insert v (set (observed src' l)) else set (observed src' l))"
  by (cases src; cases src'; simp add: set_add_def insert_absorb)+

lemma log_rule_fields:
  "paths (log_rule name result l) = paths l" "entry (log_rule name result l) = entry l"
  "observed src (log_rule name result l) = observed src l"
  by (cases src; simp add: log_rule_def)+

lemma effect_paths: "paths (fold (effect sub) cs l) = paths l"
proof (induction cs arbitrary: l)
  case Nil
  show ?case by simp
next
  case (Cons c cs)
  have "paths (effect sub c l) = paths l"
    by (cases c) (simp_all add: log_value_fields log_rule_fields)
  with Cons.IH [of "effect sub c l"] show ?case by simp
qed

lemma effect_entry: "entry l \<Longrightarrow> entry (fold (effect sub) cs l)"
proof (induction cs arbitrary: l)
  case Nil
  then show ?case by simp
next
  case (Cons c cs)
  from Cons.prems have "entry (effect sub c l)"
    by (cases c) (simp_all add: log_value_fields log_rule_fields)
  from Cons.IH [OF this] show ?case by simp
qed

lemma effect_observed:
  "set (observed src (fold (effect sub) cs l)) = set (observed src l) \<union> set (recorded cs sub src)"
proof (induction cs arbitrary: l)
  case Nil
  show ?case by simp
next
  case (Cons c cs)
  show ?case
  proof (cases c)
    case (Entry sch)
    have "observed src (l\<lparr>entry := True\<rparr>) = observed src l" by (cases src) simp_all
    with Entry Cons.IH [of "effect sub c l"] show ?thesis by simp
  next
    case (Log s n r sch)
    with Cons.IH [of "effect sub c l"] show ?thesis by (simp add: log_rule_fields)
  next
    case (Value s v sch)
    with Cons.IH [of "effect sub c l"] show ?thesis by (auto simp: log_value_fields)
  qed
qed

lemma or_code_mask_of:
  "or_code (mask_of a b) r =
     mask_of (a \<or> r = ''error'' \<or> r = ''full'') (b \<or> r = ''value'' \<or> r = ''full'')"
  by (cases a; cases b) (simp_all add: or_code_def codes_def mask_of_def)

lemma failed_Cons: "failed (r # rs) \<longleftrightarrow> r = ''error'' \<or> r = ''full'' \<or> failed rs"
  by (auto simp: failed_def)

lemma passed_Cons: "passed (r # rs) \<longleftrightarrow> r = ''value'' \<or> r = ''full'' \<or> passed rs"
  by (auto simp: passed_def)

lemma fold_or_code:
  "fold (\<lambda>r m. or_code m r) rs (mask_of a b) = mask_of (a \<or> failed rs) (b \<or> passed rs)"
proof (induction rs arbitrary: a b)
  case Nil
  show ?case by (simp add: failed_def passed_def)
next
  case (Cons r rs)
  show ?case
    by (simp add: or_code_mask_of Cons.IH failed_Cons passed_Cons disj_ac)
qed

lemma effect_rule:
  assumes "name \<noteq> ''__proto__''"
  shows "rule_mask (fold (effect sub) cs l) name =
           fold (\<lambda>r m. or_code m r) (outcomes cs sub name) (rule_mask l name) \<and>
         rule_read (fold (effect sub) cs l) name =
           (if outcomes cs sub name = [] then rule_read l name
            else Mask (fold (\<lambda>r m. or_code m r) (outcomes cs sub name) (rule_mask l name)))"
proof (induction cs arbitrary: l)
  case Nil
  show ?case by simp
next
  case (Cons c cs)
  have ns: "\<not> to_setter l' name" for l'
    using assms by (simp add: to_setter_def)
  show ?case
  proof (cases c)
    case (Entry sch)
    have "rule_mask (l\<lparr>entry := True\<rparr>) name = rule_mask l name"
      "rule_read (l\<lparr>entry := True\<rparr>) name = rule_read l name"
      by (simp_all add: rule_mask_def rule_read_def)
    with Entry Cons.IH [of "effect sub c l"] show ?thesis by simp
  next
    case (Value s v sch)
    have "rule_mask (log_value s v l) name = rule_mask l name"
      "rule_read (log_value s v l) name = rule_read l name"
      by (simp_all add: rule_mask_def rule_read_def log_value_fields)
    with Value Cons.IH [of "effect sub c l"] show ?thesis by simp
  next
    case (Log s n r sch)
    show ?thesis
    proof (cases "sch = sub \<and> n = name")
      case True
      with Log have e: "effect sub c l = log_rule name r l" by simp
      have m: "rule_mask (log_rule name r l) name = or_code (rule_mask l name) r"
        by (simp add: rule_mask_log_rule ns)
      from True Log have o: "outcomes (c # cs) sub name = r # outcomes cs sub name" by simp
      from Cons.IH [of "effect sub c l"] show ?thesis
        unfolding o by (simp add: e m rule_mask_def [of "log_rule name r l"])
           (simp add: rule_read_log_rule ns rule_mask_def)
    next
      case False
      with Log have o: "outcomes (c # cs) sub name = outcomes cs sub name" by auto
      from False Log have "rule_mask (effect sub c l) name = rule_mask l name"
        "rule_read (effect sub c l) name = rule_read l name"
        by (auto simp: rule_mask_log_rule rule_read_log_rule)
      with Cons.IH [of "effect sub c l"] show ?thesis
        unfolding o by simp
    qed
  qed
qed

lemma map_of_at: "k \<notin> fst ` set pre \<Longrightarrow> map_of (pre @ (k, l) # post) k = Some l"
  by (induction pre) auto

text \<open>The log that a node has after a run.\<close>

lemma log_after_calls:
  assumes "port_calls calls logs0 = Inr logs"
    and "map_of logs0 sub = Some l0"
    and "logs = pre @ (sub, l) # post"
    and "sub \<notin> fst ` set pre"
  shows "l = fold (effect sub) calls l0"
proof -
  from port_calls_log [OF assms(1,2)] have "map_of logs sub = Some (fold (effect sub) calls l0)"
    by simp
  moreover have "map_of logs sub = Some l"
    by (simp only: assms(3) map_of_at [OF assms(4)])
  ultimately show ?thesis by simp
qed

section \<open>The report of the example\<close>

lemma first_run_result: "port_calls first_run shared_scanned = Inr partly_reached"
  by code_simp

lemma full_run_result: "port_calls full_run shared_scanned = Inr all_reached"
  by code_simp

lemma upper_reached_loop:
  "var_missing (store_loop example_world upper_reached) = []"
  "var_skipped (store_loop example_world upper_reached) = []"
  by code_simp+

lemma partly_report:
  "fst (Tracer_report example_env None partly_world) =
     Inr (Some [\<lparr>filename = ''test/a.js'', line = 10,
                 missing = [Item (Label ''never reached'') None (Some [key_path [0, 0]])],
                 severity = ''error'',
                 message = ''Schema missing tests for @keys.#.@keys.# (never reached)''\<rparr>])"
  by code_simp

lemma all_reached_missing:
  "store_missing example_world all_reached =
     [Item (Values [LStr ''y'']) (Some ''valids'') None,
      Item (Label ''always pass'') (Some ''min'') (Some (paths shared_log))]"
  by code_simp

section \<open>The labels of the rule outcomes\<close>

text \<open>
  Claim C2, as the code has it. Take a store after any calls of the port, and in it a
  node that was reached. Let the rule be one that the node declares (the names
  \<^verbatim>\<open>default\<close> and \<^verbatim>\<open>failover\<close> included when the node has these flags), with no
  outcome logged before the calls, and not of a name that \<^verbatim>\<open>log.rule\<close> inherits.
  The mask of the rule is then 0 when the calls logged no outcome for it, 1 when they
  logged failing outcomes only, 2 when they logged passing outcomes only, and 3 when
  they logged both. When no path of the node starts with a path that the logs before it
  have put on the skipped list, the loop adds items for the node, leaves the skipped
  list as it is, and the items stay in the gaps of the store: with mask 0 they hold the
  gap \<^verbatim>\<open>never used\<close>, with mask 1 \<^verbatim>\<open>always error\<close>, with mask 2
  \<^verbatim>\<open>always pass\<close>, each with the paths of the node when it has any, and with mask 3
  no labelled gap for the rule. When a path of the node starts with a skipped path, the
  loop adds nothing for the node, whatever its masks.
\<close>

theorem rule_gap_labels:
  assumes "port_calls calls logs0 = Inr logs"
    and "map_of logs0 sub = Some l0"
    and "map_of (rule l0) name = None"
    and "logs = pre @ (sub, l) # post"
    and "sub \<notin> fst ` set pre"
    and "entry l"
    and "name \<in> set (rules (w_nodes w sub)) \<or>
         name = ''default'' \<and> flags_default (w_nodes w sub) \<noteq> None \<or>
         name = ''failover'' \<and> flags_failover (w_nodes w sub) \<noteq> None"
    and "name \<notin> set object_prototype"
  shows "(\<not> failed (outcomes calls sub name) \<and> \<not> passed (outcomes calls sub name) \<longrightarrow>
            rule_mask l name = 0) \<and>
         (failed (outcomes calls sub name) \<and> \<not> passed (outcomes calls sub name) \<longrightarrow>
            rule_mask l name = 1) \<and>
         (\<not> failed (outcomes calls sub name) \<and> passed (outcomes calls sub name) \<longrightarrow>
            rule_mask l name = 2) \<and>
         (failed (outcomes calls sub name) \<and> passed (outcomes calls sub name) \<longrightarrow>
            rule_mask l name = 3) \<and>
         (\<not> suppressed w pre l \<longrightarrow>
            (\<exists>new rest.
               var_missing (store_loop w (pre @ [(sub, l)])) = var_missing (store_loop w pre) @ new \<and>
               var_skipped (store_loop w (pre @ [(sub, l)])) = var_skipped (store_loop w pre) \<and>
               store_missing w logs = var_missing (store_loop w pre) @ new @ rest \<and>
               (rule_mask l name = 0 \<longrightarrow>
                  Item (Label ''never used'') (Some name)
                    (if paths l \<noteq> [] then Some (paths l) else None) \<in> set new) \<and>
               (rule_mask l name = 1 \<longrightarrow>
                  Item (Label ''always error'') (Some name)
                    (if paths l \<noteq> [] then Some (paths l) else None) \<in> set new) \<and>
               (rule_mask l name = 2 \<longrightarrow>
                  Item (Label ''always pass'') (Some name)
                    (if paths l \<noteq> [] then Some (paths l) else None) \<in> set new) \<and>
               (rule_mask l name = 3 \<longrightarrow> (\<forall>s p. Item (Label s) (Some name) p \<notin> set new)))) \<and>
         (suppressed w pre l \<longrightarrow>
            var_missing (store_loop w (pre @ [(sub, l)])) = var_missing (store_loop w pre) \<and>
            var_skipped (store_loop w (pre @ [(sub, l)])) = var_skipped (store_loop w pre))"
proof -
  define rs where "rs = outcomes calls sub name"
  define new where "new = log_gaps (w_nodes w sub) l"
  have l: "l = fold (effect sub) calls l0"
    by (rule log_after_calls [OF assms(1,2,4,5)])
  have np: "name \<noteq> ''__proto__''"
    using assms(8) by (auto simp: object_prototype_def)
  have r0: "rule_read l0 name = Absent" "rule_mask l0 name = mask_of False False"
    using assms(3,8) by (simp_all add: rule_read_def rule_mask_def mask_of_def)
  have m: "rule_mask l name = mask_of (failed rs) (passed rs)"
    using effect_rule [OF np, of sub calls l0]
    by (simp add: l r0 fold_or_code rs_def)
  have rd: "rule_read l name = (if rs = [] then Absent else Mask (mask_of (failed rs) (passed rs)))"
    using effect_rule [OF np, of sub calls l0]
    by (simp add: l r0 fold_or_code rs_def)
  have "rs = [] \<Longrightarrow> mask_of (failed rs) (passed rs) = 0"
    by (simp add: failed_def passed_def mask_of_def)
  with rd m have lab: "rule_label l name = labels (rule_mask l name)"
    by (simp add: rule_label_def)
  have masks:
    "(\<not> failed rs \<and> \<not> passed rs \<longrightarrow> rule_mask l name = 0) \<and>
     (failed rs \<and> \<not> passed rs \<longrightarrow> rule_mask l name = 1) \<and>
     (\<not> failed rs \<and> passed rs \<longrightarrow> rule_mask l name = 2) \<and>
     (failed rs \<and> passed rs \<longrightarrow> rule_mask l name = 3)"
    by (simp add: m mask_of_def)
  have nm: "name \<in> set (rule_names (w_nodes w sub))"
    using assms(7) by (auto simp: rule_names_def)
  have mem: "Item (Label s) (Some name) p \<in> set new \<longleftrightarrow>
               labels (rule_mask l name) = Some s \<and>
               p = (if paths l \<noteq> [] then Some (paths l) else None)" for s p
    unfolding new_def by (simp add: log_gaps_label [OF nm] lab)
  have un: "\<exists>new rest.
       var_missing (store_loop w (pre @ [(sub, l)])) = var_missing (store_loop w pre) @ new \<and>
       var_skipped (store_loop w (pre @ [(sub, l)])) = var_skipped (store_loop w pre) \<and>
       store_missing w logs = var_missing (store_loop w pre) @ new @ rest \<and>
       (rule_mask l name = 0 \<longrightarrow>
          Item (Label ''never used'') (Some name)
            (if paths l \<noteq> [] then Some (paths l) else None) \<in> set new) \<and>
       (rule_mask l name = 1 \<longrightarrow>
          Item (Label ''always error'') (Some name)
            (if paths l \<noteq> [] then Some (paths l) else None) \<in> set new) \<and>
       (rule_mask l name = 2 \<longrightarrow>
          Item (Label ''always pass'') (Some name)
            (if paths l \<noteq> [] then Some (paths l) else None) \<in> set new) \<and>
       (rule_mask l name = 3 \<longrightarrow> (\<forall>s p. Item (Label s) (Some name) p \<notin> set new))"
    if ns: "\<not> suppressed w pre l"
  proof -
    have a: "var_missing (store_loop w (pre @ [(sub, l)])) = var_missing (store_loop w pre) @ new"
      and b: "var_skipped (store_loop w (pre @ [(sub, l)])) = var_skipped (store_loop w pre)"
      unfolding new_def by (rule loop_reached [OF assms(6) ns])+
    obtain rest where "store_missing w logs = var_missing (store_loop w (pre @ [(sub, l)])) @ rest"
      using store_missing_split [of w pre sub l post] assms(4) by auto
    then have c: "store_missing w logs = var_missing (store_loop w pre) @ new @ rest"
      by (simp add: a)
    have d: "(rule_mask l name = 0 \<longrightarrow>
          Item (Label ''never used'') (Some name)
            (if paths l \<noteq> [] then Some (paths l) else None) \<in> set new) \<and>
       (rule_mask l name = 1 \<longrightarrow>
          Item (Label ''always error'') (Some name)
            (if paths l \<noteq> [] then Some (paths l) else None) \<in> set new) \<and>
       (rule_mask l name = 2 \<longrightarrow>
          Item (Label ''always pass'') (Some name)
            (if paths l \<noteq> [] then Some (paths l) else None) \<in> set new) \<and>
       (rule_mask l name = 3 \<longrightarrow> (\<forall>s p. Item (Label s) (Some name) p \<notin> set new))"
      by (simp add: mem labels_def)
    show ?thesis
      by (rule exI [of _ new], rule exI [of _ rest]) (intro conjI a b c d [THEN conjunct1]
          d [THEN conjunct2, THEN conjunct1] d [THEN conjunct2, THEN conjunct2, THEN conjunct1]
          d [THEN conjunct2, THEN conjunct2, THEN conjunct2])
  qed
  have su: "var_missing (store_loop w (pre @ [(sub, l)])) = var_missing (store_loop w pre) \<and>
            var_skipped (store_loop w (pre @ [(sub, l)])) = var_skipped (store_loop w pre)"
    if "suppressed w pre l"
    using loop_suppressed [OF that] by simp
  from masks un su show ?thesis
    unfolding rs_def by (intro conjI impI) simp_all
qed

lemma shared_scanned_node3:
  "map_of shared_scanned 3 = Some (new_log\<lparr>paths := [key_path [0, 0, 0], key_path [1]]\<rparr>)"
  by (simp add: shared_scanned_def)

theorem rule_gap_labels_witness:
  "port_calls full_run shared_scanned = Inr all_reached \<and>
   map_of shared_scanned 3 = Some (new_log\<lparr>paths := [key_path [0, 0, 0], key_path [1]]\<rparr>) \<and>
   all_reached = upper_reached @ (3, shared_log) # [] \<and>
   entry shared_log \<and>
   ''min'' \<in> set (rules (w_nodes example_world 3)) \<and>
   outcomes full_run 3 ''min'' = [''value''] \<and>
   rule_mask shared_log ''min'' = 2 \<and>
   Item (Label ''always pass'') (Some ''min'') (Some (paths shared_log))
     \<in> set (store_missing example_world all_reached)"
proof -
  have h3: "map_of (rule (new_log\<lparr>paths := [key_path [0, 0, 0], key_path [1]]\<rparr>)) ''min'' = None"
    by (simp add: new_log_def)
  have h4: "all_reached = upper_reached @ (3, shared_log) # []"
    by (simp add: all_reached_def)
  have h5: "3 \<notin> fst ` set upper_reached"
    by (simp add: upper_reached_def)
  have h6: "entry shared_log"
    by (simp add: shared_log_def)
  have h7: "''min'' \<in> set (rules (w_nodes example_world 3)) \<or>
            ''min'' = ''default'' \<and> flags_default (w_nodes example_world 3) \<noteq> None \<or>
            ''min'' = ''failover'' \<and> flags_failover (w_nodes example_world 3) \<noteq> None"
    by (simp add: example_world_def shared_heap_def leaf_def)
  have h8: "''min'' \<notin> set object_prototype"
    by (simp add: object_prototype_def)
  have o: "outcomes full_run 3 ''min'' = [''value'']"
    by (simp add: full_run_def)
  have ns: "\<not> suppressed example_world upper_reached shared_log"
    by (simp add: suppressed_def upper_reached_loop)
  have ps: "paths shared_log \<noteq> []"
    by (simp add: shared_log_def)
  have fp: "\<not> failed [''value'']" "passed [''value'']"
    by (simp_all add: failed_def passed_def)
  note t = rule_gap_labels [OF full_run_result shared_scanned_node3 h3 h4 h5 h6 h7 h8,
      unfolded o]
  from t [THEN conjunct2, THEN conjunct2, THEN conjunct1] fp
  have m: "rule_mask shared_log ''min'' = 2"
    by simp
  note u = t [THEN conjunct2, THEN conjunct2, THEN conjunct2, THEN conjunct2, THEN conjunct1,
      THEN mp, OF ns]
  from u obtain new rest where
    c: "store_missing example_world all_reached =
          var_missing (store_loop example_world upper_reached) @ new @ rest" and
    d: "rule_mask shared_log ''min'' = 2 \<longrightarrow>
          Item (Label ''always pass'') (Some ''min'')
            (if paths shared_log \<noteq> [] then Some (paths shared_log) else None) \<in> set new"
    by (elim exE conjE)
  from d m ps have "Item (Label ''always pass'') (Some ''min'') (Some (paths shared_log)) \<in> set new"
    by simp
  with c have i:
    "Item (Label ''always pass'') (Some ''min'') (Some (paths shared_log))
       \<in> set (store_missing example_world all_reached)"
    by simp
  have r: "''min'' \<in> set (rules (w_nodes example_world 3))"
    by (simp add: example_world_def shared_heap_def leaf_def)
  from full_run_result shared_scanned_node3 h4 h6 r o m i show ?thesis
    by (intro conjI)
qed

text \<open>
  Claim C2 as stated fails for a reached node that the skipped list suppresses. After
  the first run of the example the shared node \<^verbatim>\<open>s\<close> is reached and its \<^verbatim>\<open>min\<close> rule
  has the mask 2, but \<^verbatim>\<open>a.p\<close> was not reached and one path of \<^verbatim>\<open>s\<close> goes through
  it: the report holds the gap of \<^verbatim>\<open>a.p\<close> and nothing for the rule.
\<close>

theorem rule_gap_suppressed_counterexample:
  "port_calls first_run shared_scanned = Inr partly_reached \<and>
   map_of partly_reached 3 = Some shared_log \<and>
   entry shared_log \<and>
   ''min'' \<in> set (rules (shared_heap 3)) \<and>
   outcomes first_run 3 ''min'' = [''value''] \<and>
   rule_mask shared_log ''min'' = 2 \<and>
   fst (Tracer_report example_env None partly_world) =
     Inr (Some [\<lparr>filename = ''test/a.js'', line = 10,
                 missing = [Item (Label ''never reached'') None (Some [key_path [0, 0]])],
                 severity = ''error'',
                 message = ''Schema missing tests for @keys.#.@keys.# (never reached)''\<rparr>])"
proof -
  have "map_of partly_reached 3 = Some shared_log"
    by (simp add: partly_reached_def upper_partly_def)
  moreover have "rule_mask shared_log ''min'' = 2"
    by (simp add: rule_mask_def rule_read_def shared_log_def)
  moreover have "outcomes first_run 3 ''min'' = [''value'']"
    by (simp add: first_run_def)
  moreover have "entry shared_log" "''min'' \<in> set (rules (shared_heap 3))"
    by (simp_all add: shared_log_def shared_heap_def leaf_def)
  ultimately show ?thesis
    using first_run_result partly_report
    by (intro conjI)
qed

text \<open>A rule whose name the object \<^verbatim>\<open>log.rule\<close> inherits has no gap while no
  outcome was logged for it: the root of the example is entered, and of its two rules
  only \<^verbatim>\<open>min\<close> is reported.\<close>

lemma inherited_rule_name:
  "store_missing \<lparr>w_schemas = [], w_nodes = ctor_heap\<rparr> [(0, new_log\<lparr>entry := True\<rparr>)] =
     [Item (Label ''never used'') (Some ''min'') None]"
  by code_simp

section \<open>The missing literal values\<close>

text \<open>
  Claim C4, as the code has it. Take a store after any calls of the port, and in it a
  node that was reached and declares a literal set for the category. The values
  observed for the category are those that the log held before the calls and those
  that the calls recorded. When no path of the node starts with a path that the logs
  before it have put on the skipped list, the loop adds items for the node that stay in
  the gaps of the store: the values never observed are the declared ones, in their
  order, that are not among the observed ones (they depend on the set of the observed
  values only, not on their order or number), and the items hold a gap with these
  values under the rule name of the category exactly when there is such a value, and no
  other gap with values under that name. When a path of the node starts with a skipped
  path, the loop adds nothing for the node, whatever was observed.
\<close>

theorem missing_values_difference:
  assumes "port_calls calls logs0 = Inr logs"
    and "map_of logs0 sub = Some l0"
    and "logs = pre @ (sub, l) # post"
    and "sub \<notin> fst ` set pre"
    and "entry l"
    and "declared src (w_nodes w sub) = Some d"
  shows "set (observed src l) = set (observed src l0) \<union> set (recorded calls sub src) \<and>
         (\<not> suppressed w pre l \<longrightarrow>
            (\<exists>new rest miss.
               var_missing (store_loop w (pre @ [(sub, l)])) = var_missing (store_loop w pre) @ new \<and>
               var_skipped (store_loop w (pre @ [(sub, l)])) = var_skipped (store_loop w pre) \<and>
               store_missing w logs = var_missing (store_loop w pre) @ new @ rest \<and>
               miss = filter (\<lambda>v. v \<notin> set (observed src l0) \<union> set (recorded calls sub src)) d \<and>
               set miss = set d - (set (observed src l0) \<union> set (recorded calls sub src)) \<and>
               (\<forall>vs p. Item (Values vs) (Some (values_rule src)) p \<in> set new \<longleftrightarrow>
                        vs = miss \<and> p = None \<and> miss \<noteq> []))) \<and>
         (suppressed w pre l \<longrightarrow>
            var_missing (store_loop w (pre @ [(sub, l)])) = var_missing (store_loop w pre) \<and>
            var_skipped (store_loop w (pre @ [(sub, l)])) = var_skipped (store_loop w pre))"
proof -
  define new where "new = log_gaps (w_nodes w sub) l"
  define miss where
    "miss = filter (\<lambda>v. v \<notin> set (observed src l0) \<union> set (recorded calls sub src)) d"
  have l: "l = fold (effect sub) calls l0"
    by (rule log_after_calls [OF assms(1,2,3,4)])
  have ob: "set (observed src l) = set (observed src l0) \<union> set (recorded calls sub src)"
    by (simp add: l effect_observed)
  have un: "\<exists>new rest miss.
       var_missing (store_loop w (pre @ [(sub, l)])) = var_missing (store_loop w pre) @ new \<and>
       var_skipped (store_loop w (pre @ [(sub, l)])) = var_skipped (store_loop w pre) \<and>
       store_missing w logs = var_missing (store_loop w pre) @ new @ rest \<and>
       miss = filter (\<lambda>v. v \<notin> set (observed src l0) \<union> set (recorded calls sub src)) d \<and>
       set miss = set d - (set (observed src l0) \<union> set (recorded calls sub src)) \<and>
       (\<forall>vs p. Item (Values vs) (Some (values_rule src)) p \<in> set new \<longleftrightarrow>
                vs = miss \<and> p = None \<and> miss \<noteq> [])"
    if ns: "\<not> suppressed w pre l"
  proof -
    have a: "var_missing (store_loop w (pre @ [(sub, l)])) = var_missing (store_loop w pre) @ new"
      and b: "var_skipped (store_loop w (pre @ [(sub, l)])) = var_skipped (store_loop w pre)"
      unfolding new_def by (rule loop_reached [OF assms(5) ns])+
    obtain rest where "store_missing w logs = var_missing (store_loop w (pre @ [(sub, l)])) @ rest"
      using store_missing_split [of w pre sub l post] assms(3) by auto
    then have c: "store_missing w logs = var_missing (store_loop w pre) @ new @ rest"
      by (simp add: a)
    have d: "miss = filter (\<lambda>v. v \<notin> set (observed src l0) \<union> set (recorded calls sub src)) d"
      by (simp add: miss_def)
    have e: "set miss = set d - (set (observed src l0) \<union> set (recorded calls sub src))"
      by (auto simp: miss_def)
    have g: "\<forall>vs p. Item (Values vs) (Some (values_rule src)) p \<in> set new \<longleftrightarrow>
                    vs = miss \<and> p = None \<and> miss \<noteq> []"
      unfolding new_def by (auto simp: log_gaps_values [OF assms(6)] ob miss_def)
    show ?thesis
      by (rule exI [of _ new], rule exI [of _ rest], rule exI [of _ miss])
         (intro conjI a b c d e g)
  qed
  have su: "var_missing (store_loop w (pre @ [(sub, l)])) = var_missing (store_loop w pre) \<and>
            var_skipped (store_loop w (pre @ [(sub, l)])) = var_skipped (store_loop w pre)"
    if "suppressed w pre l"
    using loop_suppressed [OF that] by simp
  show ?thesis
    by (rule conjI [OF ob], rule conjI, rule impI, erule un, rule impI, erule su)
qed

theorem missing_values_difference_witness:
  "port_calls full_run shared_scanned = Inr all_reached \<and>
   map_of shared_scanned 3 = Some (new_log\<lparr>paths := [key_path [0, 0, 0], key_path [1]]\<rparr>) \<and>
   all_reached = upper_reached @ (3, shared_log) # [] \<and>
   entry shared_log \<and>
   declared Valid (w_nodes example_world 3) = Some [LStr ''x'', LStr ''y''] \<and>
   recorded full_run 3 Valid = [LStr ''x'', LStr ''x''] \<and>
   set (observed Valid shared_log) = {LStr ''x''} \<and>
   Item (Values [LStr ''y'']) (Some ''valids'') None \<in> set (store_missing example_world all_reached)"
proof -
  have h3: "all_reached = upper_reached @ (3, shared_log) # []"
    by (simp add: all_reached_def)
  have h4: "3 \<notin> fst ` set upper_reached"
    by (simp add: upper_reached_def)
  have h5: "entry shared_log"
    by (simp add: shared_log_def)
  have h6: "declared Valid (w_nodes example_world 3) = Some [LStr ''x'', LStr ''y'']"
    by (simp add: example_world_def shared_heap_def leaf_def)
  have rc: "recorded full_run 3 Valid = [LStr ''x'', LStr ''x'']"
    by (simp add: full_run_def)
  have o0: "observed Valid (new_log\<lparr>paths := [key_path [0, 0, 0], key_path [1]]\<rparr>) = []"
    by (simp add: new_log_def)
  have ns: "\<not> suppressed example_world upper_reached shared_log"
    by (simp add: suppressed_def upper_reached_loop)
  note t = missing_values_difference [OF full_run_result shared_scanned_node3 h3 h4 h5 h6,
      unfolded rc o0]
  from t [THEN conjunct1] have ob: "set (observed Valid shared_log) = {LStr ''x''}"
    by simp
  from t [THEN conjunct2, THEN conjunct1, THEN mp, OF ns] obtain new rest miss where
    c: "store_missing example_world all_reached =
          var_missing (store_loop example_world upper_reached) @ new @ rest" and
    d: "miss = filter (\<lambda>v. v \<notin> set [] \<union> set [LStr ''x'', LStr ''x'']) [LStr ''x'', LStr ''y'']" and
    g: "\<forall>vs p. Item (Values vs) (Some (values_rule Valid)) p \<in> set new \<longleftrightarrow>
                 vs = miss \<and> p = None \<and> miss \<noteq> []"
    by (elim exE conjE)
  from d have mi: "miss = [LStr ''y'']"
    by simp
  from g [THEN spec, THEN spec, of miss None] mi have
    "Item (Values [LStr ''y'']) (Some ''valids'') None \<in> set new"
    by simp
  with c have i:
    "Item (Values [LStr ''y'']) (Some ''valids'') None \<in> set (store_missing example_world all_reached)"
    by simp
  from full_run_result shared_scanned_node3 h3 h5 h6 rc ob i show ?thesis
    by (intro conjI)
qed

text \<open>
  Claim C4 as stated fails for a reached node that the skipped list suppresses. After
  the first run of the example the shared node \<^verbatim>\<open>s\<close> is reached, declares the valid
  values \<^verbatim>\<open>'x'\<close> and \<^verbatim>\<open>'y'\<close> and has seen \<^verbatim>\<open>'x'\<close> only, but the report holds no gap
  for the value \<^verbatim>\<open>'y'\<close>: one path of \<^verbatim>\<open>s\<close> goes through \<^verbatim>\<open>a.p\<close>, which was not
  reached.
\<close>

theorem missing_values_suppressed_counterexample:
  "port_calls first_run shared_scanned = Inr partly_reached \<and>
   map_of partly_reached 3 = Some shared_log \<and>
   entry shared_log \<and>
   valids (shared_heap 3) = Some [LStr ''x'', LStr ''y''] \<and>
   recorded first_run 3 Valid = [LStr ''x''] \<and>
   valid shared_log = [LStr ''x''] \<and>
   fst (Tracer_report example_env None partly_world) =
     Inr (Some [\<lparr>filename = ''test/a.js'', line = 10,
                 missing = [Item (Label ''never reached'') None (Some [key_path [0, 0]])],
                 severity = ''error'',
                 message = ''Schema missing tests for @keys.#.@keys.# (never reached)''\<rparr>])"
proof -
  have "map_of partly_reached 3 = Some shared_log"
    by (simp add: partly_reached_def upper_partly_def)
  moreover have "recorded first_run 3 Valid = [LStr ''x'']"
    by (simp add: first_run_def)
  moreover have "entry shared_log" "valids (shared_heap 3) = Some [LStr ''x'', LStr ''y'']"
    "valid shared_log = [LStr ''x'']"
    by (simp_all add: shared_log_def shared_heap_def leaf_def)
  ultimately show ?thesis
    using first_run_result partly_report
    by (intro conjI)
qed

section \<open>The report before any validation\<close>

lemma internals_sub_iff:
  "internals_sub ps skipped \<longleftrightarrow> (\<exists>p\<in>set ps. \<exists>s\<in>set skipped. prefix s p)"
  by (simp add: internals_sub_def list_ex_iff) (metis append_eq_conv_conj prefix_def)

lemma internals_sub_mono:
  "internals_sub ps sk \<Longrightarrow> set sk \<subseteq> set sk' \<Longrightarrow> internals_sub ps sk'"
  by (auto simp: internals_sub_iff)

lemma logs_step_unreached:
  assumes "\<forall>xl\<in>set logs. \<not> entry (snd xl)"
  shows "logs_step h logs sk =
           (map never_reached (listed logs sk),
            concat (map (\<lambda>xl. paths (snd xl)) (listed logs sk)))"
  using assms
proof (induction logs arbitrary: sk)
  case Nil
  show ?case by simp
next
  case (Cons xl logs)
  then have IH: "logs_step h logs sk' =
           (map never_reached (listed logs sk'),
            concat (map (\<lambda>xl. paths (snd xl)) (listed logs sk')))" for sk'
    by simp
  from Cons.prems have "\<not> entry (snd xl)" by simp
  then show ?case
    by (simp add: log_step_def IH never_reached_def)
qed

lemma listed_subseq: "subseq (listed logs sk) logs"
  by (induction logs arbitrary: sk) auto

lemma listed_not_skipped:
  "xl \<in> set (listed logs sk) \<Longrightarrow> \<not> internals_sub (paths (snd xl)) sk"
proof (induction logs arbitrary: sk)
  case Nil
  then show ?case by simp
next
  case (Cons a logs)
  show ?case
  proof (cases "internals_sub (paths (snd a)) sk")
    case True
    with Cons show ?thesis by simp
  next
    case False
    with Cons.prems have "xl = a \<or> xl \<in> set (listed logs (sk @ paths (snd a)))" by simp
    then show ?thesis
    proof
      assume "xl = a"
      with False show ?thesis by simp
    next
      assume "xl \<in> set (listed logs (sk @ paths (snd a)))"
      from Cons.IH [OF this] show ?thesis
        by (auto dest: internals_sub_mono [where sk' = "sk @ paths (snd a)"])
    qed
  qed
qed

lemma listed_not_nested:
  "listed logs sk = a @ x # b @ y # c \<Longrightarrow> \<not> internals_sub (paths (snd y)) (paths (snd x))"
proof (induction logs arbitrary: sk a)
  case Nil
  then show ?case by simp
next
  case (Cons xl logs)
  show ?case
  proof (cases "internals_sub (paths (snd xl)) sk")
    case True
    with Cons.prems have "listed logs sk = a @ x # b @ y # c" by simp
    from Cons.IH [OF this] show ?thesis .
  next
    case False
    with Cons.prems have eq: "xl # listed logs (sk @ paths (snd xl)) = a @ x # b @ y # c"
      by simp
    show ?thesis
    proof (cases a)
      case Nil
      with eq have "x = xl" and "listed logs (sk @ paths (snd x)) = b @ y # c" by auto
      then have "y \<in> set (listed logs (sk @ paths (snd x)))" by simp
      from listed_not_skipped [OF this] show ?thesis
        by (auto dest: internals_sub_mono [where sk' = "sk @ paths (snd x)"])
    next
      case (Cons a0 a')
      with eq have "listed logs (sk @ paths (snd xl)) = a' @ x # b @ y # c" by auto
      from Cons.IH [OF this] show ?thesis .
    qed
  qed
qed

text \<open>The message of an item with the paths \<^verbatim>\<open>[]\<close> is what \<^verbatim>\<open>Errors.path\<close> makes
  of \<^verbatim>\<open>undefined\<close>; when that call raises, so do the messages of a list that starts
  with such an item.\<close>

lemma messages_no_path:
  "errors_path E None = Inl e \<Longrightarrow> messages E (Item s r (Some []) # rest) = Inl e"
  by (simp add: internals_message_def)

lemma zero_runs_gaps:
  assumes "Store_new n h root = Some st"
  shows "store_missing \<lparr>w_schemas = t, w_nodes = h\<rparr> st = map never_reached (listed st [])"
    and "\<exists>rest. listed st [] = (root, new_log) # rest"
proof -
  show "store_missing \<lparr>w_schemas = t, w_nodes = h\<rparr> st = map never_reached (listed st [])"
    by (simp add: store_missing_step logs_step_unreached [OF scanned_unentered [OF assms]])
  from scanned_root [OF assms] obtain rest where "st = (root, new_log) # rest" ..
  then have "listed st [] = (root, new_log) # listed rest ([] @ paths (snd (root, new_log)))"
    by (simp add: new_log_def internals_sub_def)
  then show "\<exists>rest. listed st [] = (root, new_log) # rest" ..
qed

lemma report_single:
  assumes "file = None \<or> file = Some (reg_filename r)"
    and "store_missing w (reg_store r) \<noteq> []"
    and "messages E (store_missing w (reg_store r)) = Inl e"
    and "w_schemas w = [(root, r)]"
  shows "fst (Tracer_report E file w) = Inl e"
proof -
  have f: "\<not> (truthy file \<and> file \<noteq> Some (reg_filename r))"
    using assms(1) by auto
  have n: "(new_frame w)\<lparr>var_missing := [], var_skipped := []\<rparr> = new_frame w"
    by (simp add: new_frame_def)
  have m: "var_missing (report_logs (reg_store r) (new_frame w)) = store_missing w (reg_store r)"
    by (simp add: store_missing_def store_loop_def)
  show ?thesis
    unfolding Tracer_report_def assms(4)
    by (simp add: report_schema_def f n m assms(2,3) Let_def del: truthy.simps)
qed

text \<open>
  Claim C1. Take a root that was registered and not validated. The loop of the report
  lists the nodes as the claim describes it for the nodes below the root: the gaps of
  the store are \<^verbatim>\<open>never reached\<close> gaps and nothing else, one for each log that has no
  path starting with a path of a log listed before it, in the order of the store. But
  before any validation the root was not reached either. Its gap comes first and has
  no path, and for an item with the paths \<^verbatim>\<open>[]\<close> \<^verbatim>\<open>internals.message\<close> passes
  \<^verbatim>\<open>undefined\<close> to \<^verbatim>\<open>Errors.path\<close>. When that call raises, as a function that goes
  through the segments of its argument does, the report raises, for every root and
  every file that selects its registration: the gaps that the loop has listed are not
  returned.
\<close>

theorem zero_runs_report_raises:
  assumes "Tracer_register n h loc root [] = Some (st, t)"
    and "errors_path E None = Inl e"
    and "file = None \<or> file = Some (fst loc)"
  shows "fst (Tracer_report E file \<lparr>w_schemas = t, w_nodes = h\<rparr>) = Inl e \<and>
         store_missing \<lparr>w_schemas = t, w_nodes = h\<rparr> st = map never_reached (listed st []) \<and>
         (\<exists>rest. listed st [] = (root, new_log) # rest)"
proof -
  from assms(1) have st: "Store_new n h root = Some st"
    and t: "t = [(root, \<lparr>reg_filename = fst loc, reg_line = snd loc, reg_store = st\<rparr>)]"
    by (auto simp: Tracer_register_def split: option.splits)
  define w where "w = \<lparr>w_schemas = t, w_nodes = h\<rparr>"
  define r where "r = \<lparr>reg_filename = fst loc, reg_line = snd loc, reg_store = st\<rparr>"
  have g: "store_missing w st = map never_reached (listed st [])"
    unfolding w_def by (rule zero_runs_gaps(1) [OF st])
  obtain rest where l: "listed st [] = (root, new_log) # rest"
    using zero_runs_gaps(2) [OF st] by blast
  have m: "store_missing w st = Item (Label ''never reached'') None (Some []) # map never_reached rest"
    by (simp add: g l never_reached_def new_log_def)
  have "fst (Tracer_report E file w) = Inl e"
  proof (rule report_single [where r = r and root = root])
    show "file = None \<or> file = Some (reg_filename r)"
      using assms(3) by (simp add: r_def)
    show "store_missing w (reg_store r) \<noteq> []"
      by (simp add: r_def m)
    show "messages E (store_missing w (reg_store r)) = Inl e"
      by (simp only: r_def registration.simps m messages_no_path [OF assms(2)])
    show "w_schemas w = [(root, r)]"
      by (simp add: w_def t r_def)
  qed
  with g l show ?thesis
    unfolding w_def by blast
qed

lemma single_register:
  "Tracer_register 2 single_heap (''test/a.js'', 10) 0 [] =
     Some ([(0, new_log), (1, new_log\<lparr>paths := [key_path [0]]\<rparr>)],
           [(0, \<lparr>reg_filename = ''test/a.js'', reg_line = 10,
                 reg_store = [(0, new_log), (1, new_log\<lparr>paths := [key_path [0]]\<rparr>)]\<rparr>)])"
  by code_simp

lemma single_missing:
  "store_missing single_world [(0, new_log), (1, new_log\<lparr>paths := [key_path [0]]\<rparr>)] =
     [Item (Label ''never reached'') None (Some []),
      Item (Label ''never reached'') None (Some [key_path [0]])]"
  by code_simp

theorem zero_runs_report_raises_witness:
  "Tracer_register 2 single_heap (''test/a.js'', 10) 0 [] =
     Some ([(0, new_log), (1, new_log\<lparr>paths := [key_path [0]]\<rparr>)], w_schemas single_world) \<and>
   errors_path example_env None = Inl TypeError \<and>
   fst (Tracer_report example_env None single_world) = Inl TypeError \<and>
   store_missing single_world [(0, new_log), (1, new_log\<lparr>paths := [key_path [0]]\<rparr>)] =
     [Item (Label ''never reached'') None (Some []),
      Item (Label ''never reached'') None (Some [key_path [0]])]"
proof -
  have e: "errors_path example_env None = Inl TypeError"
    by (simp add: example_env_def)
  have r: "Tracer_register 2 single_heap (''test/a.js'', 10) 0 [] =
     Some ([(0, new_log), (1, new_log\<lparr>paths := [key_path [0]]\<rparr>)], w_schemas single_world)"
    using single_register by (simp add: single_world_def)
  have w: "\<lparr>w_schemas = w_schemas single_world, w_nodes = single_heap\<rparr> = single_world"
    by (simp add: single_world_def)
  from zero_runs_report_raises [OF r e, of None, unfolded w]
  have "fst (Tracer_report example_env None single_world) = Inl TypeError"
    by simp
  with r e single_missing show ?thesis
    by (intro conjI)
qed

section \<open>The result of the report\<close>

lemma store_loop_missing:
  "var_missing (report_logs logs (f\<lparr>var_missing := [], var_skipped := []\<rparr>)) =
     store_missing (fr_world f) logs"
  by (simp add: report_logs_fields store_missing_step)

lemma report_schema_cases:
  obtains
    (skip) f' where "\<not> has_gaps (fr_world f) fl r" "report_schema E fl r f = Inr f'"
      "fr_world f' = fr_world f" "var_coverage f' = var_coverage f"
  | (raise) e f' where "has_gaps (fr_world f) fl r"
      "messages E (store_missing (fr_world f) (reg_store r)) = Inl e"
      "report_schema E fl r f = Inl (e, f')" "fr_world f' = fr_world f"
  | (push) ms f' where "has_gaps (fr_world f) fl r"
      "messages E (store_missing (fr_world f) (reg_store r)) = Inr ms"
      "report_schema E fl r f = Inr f'" "fr_world f' = fr_world f"
      "var_coverage f' = var_coverage f @ [coverage_of (fr_world f) r ms]"
proof (cases "selected fl r")
  case False
  then have "\<not> has_gaps (fr_world f) fl r" "report_schema E fl r f = Inr f"
    by (simp_all add: has_gaps_def selected_def report_schema_def)
  then show ?thesis by (auto intro: skip)
next
  case True
  define f2 where "f2 = report_logs (reg_store r) (f\<lparr>var_missing := [], var_skipped := []\<rparr>)"
  have m: "var_missing f2 = store_missing (fr_world f) (reg_store r)"
    unfolding f2_def by (rule store_loop_missing)
  have w: "fr_world f2 = fr_world f" and c: "var_coverage f2 = var_coverage f"
    unfolding f2_def by (simp_all add: report_logs_fields)
  from True have ns: "\<not> (truthy fl \<and> fl \<noteq> Some (reg_filename r))"
    by (simp add: selected_def)
  have rs: "report_schema E fl r f =
      (if var_missing f2 \<noteq> [] then
         (case messages E (var_missing f2) of
            Inl e \<Rightarrow> Inl (e, f2)
          | Inr ms \<Rightarrow>
              Inr (f2\<lparr>var_coverage := var_coverage f2 @
                [\<lparr>filename = reg_filename r, line = reg_line r, missing = var_missing f2,
                  severity = ''error'',
                  message = ''Schema missing tests for '' @ join '', '' ms\<rparr>]\<rparr>))
       else Inr f2)"
    unfolding f2_def report_schema_def Let_def using ns by (simp only: if_False)
  show ?thesis
  proof (cases "store_missing (fr_world f) (reg_store r) = []")
    case True
    then have "\<not> has_gaps (fr_world f) fl r" by (simp add: has_gaps_def)
    moreover from True have "report_schema E fl r f = Inr f2" by (simp add: rs m)
    ultimately show ?thesis using w c by (rule skip)
  next
    case False
    with \<open>selected fl r\<close> have g: "has_gaps (fr_world f) fl r" by (simp add: has_gaps_def)
    show ?thesis
    proof (cases "messages E (store_missing (fr_world f) (reg_store r))")
      case (Inl e)
      with False have "report_schema E fl r f = Inl (e, f2)" by (simp add: rs m)
      with g Inl show ?thesis using w by (rule raise)
    next
      case (Inr ms)
      define f3 where "f3 = f2\<lparr>var_coverage := var_coverage f2 @
                [\<lparr>filename = reg_filename r, line = reg_line r, missing = var_missing f2,
                  severity = ''error'',
                  message = ''Schema missing tests for '' @ join '', '' ms\<rparr>]\<rparr>"
      from Inr False have "report_schema E fl r f = Inr f3" by (simp add: rs m f3_def)
      moreover have "fr_world f3 = fr_world f"
        "var_coverage f3 = var_coverage f @ [coverage_of (fr_world f) r ms]"
        by (simp_all add: f3_def w c m coverage_of_def)
      ultimately show ?thesis using g Inr by (auto intro: push)
    qed
  qed
qed

lemma report_schemas_records:
  "case records E (fr_world f) (filter (has_gaps (fr_world f) fl) rs) of
     Inl e \<Rightarrow> (\<exists>f'. report_schemas E fl rs f = Inl (e, f') \<and> fr_world f' = fr_world f)
   | Inr cs \<Rightarrow>
       (\<exists>f'. report_schemas E fl rs f = Inr f' \<and> fr_world f' = fr_world f \<and>
             var_coverage f' = var_coverage f @ cs)"
proof (induction rs arbitrary: f)
  case Nil
  show ?case by simp
next
  case (Cons r rs)
  show ?case
  proof (cases rule: report_schema_cases [of f fl r E])
    case (skip f')
    with Cons.IH [of f'] show ?thesis
      by (auto split: sum.splits)
  next
    case (raise e f')
    then show ?thesis by simp
  next
    case (push ms f')
    with Cons.IH [of f'] show ?thesis
      by (auto split: sum.splits)
  qed
qed

text \<open>
  The report as a function of the world: the records of the selected registrations
  with gaps, in order, or the error of the first message that raises; \<^verbatim>\<open>null\<close> when
  there is no record. The world after the call is the world before it.
\<close>

lemma Tracer_report_records:
  "Tracer_report E file w =
     (case records E w (filter (has_gaps w file) (map snd (w_schemas w))) of
        Inl e \<Rightarrow> Inl e
      | Inr cs \<Rightarrow> Inr (if cs \<noteq> [] then Some cs else None), w)"
proof -
  define rs where "rs = map snd (w_schemas w)"
  have w0: "fr_world (new_frame w) = w" "var_coverage (new_frame w) = []"
    by (simp_all add: new_frame_def)
  note r = report_schemas_records [where f = "new_frame w" and rs = rs and E = E and fl = "file",
      unfolded w0]
  show ?thesis
  proof (cases "records E w (filter (has_gaps w file) rs)")
    case (Inl e)
    with r obtain f' where "report_schemas E file rs (new_frame w) = Inl (e, f')"
      "fr_world f' = w"
      by auto
    with Inl show ?thesis
      by (simp add: Tracer_report_def rs_def)
  next
    case (Inr cs)
    with r obtain f' where "report_schemas E file rs (new_frame w) = Inr f'"
      "fr_world f' = w" "var_coverage f' = cs"
      by auto
    with Inr show ?thesis
      by (simp add: Tracer_report_def rs_def)
  qed
qed

lemma records_Nil: "records E w rs = Inr [] \<longleftrightarrow> rs = []"
  by (cases rs) (auto split: sum.splits)

lemma report_null_iff:
  "fst (Tracer_report E file w) = Inr None \<longleftrightarrow>
     (\<forall>r\<in>set (map snd (w_schemas w)). selected file r \<longrightarrow> store_missing w (reg_store r) = [])"
proof -
  have "fst (Tracer_report E file w) = Inr None \<longleftrightarrow>
        records E w (filter (has_gaps w file) (map snd (w_schemas w))) = Inr []"
    by (auto simp: Tracer_report_records split: sum.splits if_splits)
  also have "\<dots> \<longleftrightarrow> filter (has_gaps w file) (map snd (w_schemas w)) = []"
    by (rule records_Nil)
  also have "\<dots> \<longleftrightarrow>
     (\<forall>r\<in>set (map snd (w_schemas w)). selected file r \<longrightarrow> store_missing w (reg_store r) = [])"
    by (auto simp: filter_empty_conv has_gaps_def)
  finally show ?thesis .
qed

lemma records_list:
  "records E w rs = Inr cs \<Longrightarrow>
     list_all2 (\<lambda>c r. \<exists>ms. messages E (store_missing w (reg_store r)) = Inr ms \<and>
                           c = coverage_of w r ms) cs rs"
  by (induction rs arbitrary: cs) (auto split: sum.splits)

lemma report_list:
  assumes "fst (Tracer_report E file w) = Inr (Some cov)"
  shows "cov \<noteq> [] \<and>
         list_all2 (\<lambda>c r. \<exists>ms. messages E (store_missing w (reg_store r)) = Inr ms \<and>
                               c = coverage_of w r ms)
           cov (filter (has_gaps w file) (map snd (w_schemas w)))"
  using assms records_list [of E w "filter (has_gaps w file) (map snd (w_schemas w))"]
  by (auto simp: Tracer_report_records split: sum.splits if_splits)

lemma example_report:
  "fst (Tracer_report example_env None example_world) =
     Inr (Some [\<lparr>filename = ''test/a.js'', line = 10,
                 missing = [Item (Values [LStr ''y'']) (Some ''valids'') None,
                            Item (Label ''always pass'') (Some ''min'') (Some (paths shared_log))],
                 severity = ''error'',
                 message =
                   ''Schema missing tests for valids (y), @keys.#.@keys.#.@keys.#:min (always pass)''\<rparr>])"
  by code_simp

text \<open>
  Claim C7. The report is \<^verbatim>\<open>null\<close> exactly when every registration that passes the
  filter has no gaps (\<open>report_null_iff\<close>), and a list that it returns is not empty
  and holds one record for each registration that passes the filter and has gaps, in
  the order of registration (\<open>report_list\<close>). But where there are gaps the report
  does not always return the list, as the claim says it does: it raises when the message
  of a gap raises. The gap of a root that was not entered has the paths \<^verbatim>\<open>[]\<close>, and
  for these \<^verbatim>\<open>internals.message\<close> passes \<^verbatim>\<open>undefined\<close> to \<^verbatim>\<open>Errors.path\<close>
  (the report of a rule, unlike it, leaves the paths out when the log has none). In the
  example, two roots were validated and a third was registered and not entered. The
  third root has a gap, and so has the first. With the file of the first root the
  report is the record of the first root; with the file of the second root it is
  \<^verbatim>\<open>null\<close>; with no file, where the claim has a list of two records, it raises.
\<close>

theorem report_raises_unentered_root:
  "store_missing unentered_world all_reached =
     [Item (Values [LStr ''y'']) (Some ''valids'') None,
      Item (Label ''always pass'') (Some ''min'') (Some (paths shared_log))] \<and>
   store_missing unentered_world [(6, new_log)] =
     [Item (Label ''never reached'') None (Some [])] \<and>
   fst (Tracer_report example_env (Some ''test/a.js'') unentered_world) =
     Inr (Some [\<lparr>filename = ''test/a.js'', line = 10,
                 missing = [Item (Values [LStr ''y'']) (Some ''valids'') None,
                            Item (Label ''always pass'') (Some ''min'') (Some (paths shared_log))],
                 severity = ''error'',
                 message =
                   ''Schema missing tests for valids (y), @keys.#.@keys.#.@keys.#:min (always pass)''\<rparr>]) \<and>
   fst (Tracer_report example_env (Some ''test/b.js'') unentered_world) = Inr None \<and>
   fst (Tracer_report example_env None unentered_world) = Inl TypeError"
proof (intro conjI)
  show "store_missing unentered_world all_reached =
     [Item (Values [LStr ''y'']) (Some ''valids'') None,
      Item (Label ''always pass'') (Some ''min'') (Some (paths shared_log))]"
    by code_simp
  show "store_missing unentered_world [(6, new_log)] =
     [Item (Label ''never reached'') None (Some [])]"
    by code_simp
  show "fst (Tracer_report example_env (Some ''test/a.js'') unentered_world) =
     Inr (Some [\<lparr>filename = ''test/a.js'', line = 10,
                 missing = [Item (Values [LStr ''y'']) (Some ''valids'') None,
                            Item (Label ''always pass'') (Some ''min'') (Some (paths shared_log))],
                 severity = ''error'',
                 message =
                   ''Schema missing tests for valids (y), @keys.#.@keys.#.@keys.#:min (always pass)''\<rparr>])"
    by code_simp
  show "fst (Tracer_report example_env (Some ''test/b.js'') unentered_world) = Inr None"
    by code_simp
  show "fst (Tracer_report example_env None unentered_world) = Inl TypeError"
    by code_simp
qed

section \<open>The report changes nothing\<close>

text \<open>
  Claim C8. A call of the report leaves the world as it was, the tracer with every
  store and log that it holds and the schema nodes: every statement of the method that
  writes, writes to an array or a set that the method has made itself. A second call
  right after the first gives the same result, be it a list, \<^verbatim>\<open>null\<close> or an error.
\<close>

theorem report_twice_same:
  assumes "Tracer_report E file w = (r1, w1)"
    and "Tracer_report E file w1 = (r2, w2)"
  shows "w1 = w \<and> w2 = w \<and> r2 = r1"
proof -
  from assms(1) have "w1 = w"
    by (simp add: Tracer_report_records)
  with assms show ?thesis
    by (simp add: Tracer_report_records)
qed

theorem report_twice_same_witness:
  "fst (Tracer_report example_env None example_world) =
     Inr (Some [\<lparr>filename = ''test/a.js'', line = 10,
                 missing = [Item (Values [LStr ''y'']) (Some ''valids'') None,
                            Item (Label ''always pass'') (Some ''min'') (Some (paths shared_log))],
                 severity = ''error'',
                 message =
                   ''Schema missing tests for valids (y), @keys.#.@keys.#.@keys.#:min (always pass)''\<rparr>]) \<and>
   snd (Tracer_report example_env None example_world) = example_world \<and>
   Tracer_report example_env None (snd (Tracer_report example_env None example_world)) =
     Tracer_report example_env None example_world"
proof -
  have a: "Tracer_report example_env None example_world =
      (fst (Tracer_report example_env None example_world),
       snd (Tracer_report example_env None example_world))"
    by simp
  have b: "Tracer_report example_env None (snd (Tracer_report example_env None example_world)) =
      (fst (Tracer_report example_env None (snd (Tracer_report example_env None example_world))),
       snd (Tracer_report example_env None (snd (Tracer_report example_env None example_world))))"
    by simp
  from report_twice_same [OF a b] have
    c: "snd (Tracer_report example_env None example_world) = example_world"
    by (rule conjunct1)
  then have "Tracer_report example_env None (snd (Tracer_report example_env None example_world)) =
     Tracer_report example_env None example_world"
    by (simp only:)
  with example_report c show ?thesis
    by (intro conjI)
qed

section \<open>Registering a root again\<close>

text \<open>
  Claim C9. A root that is registered has one store: registering it again returns the
  store that the tracer holds for it, whatever the calls of the instrumentation port
  have made of it since, and leaves the tracer as it is; no scan runs (the depth and
  the location given do not matter). A root that is not registered is scanned once, and
  its store and location are put at the end of the tracer; from then on registering it
  returns that store.
\<close>

theorem register_once:
  "(map_of t root = Some r \<longrightarrow>
      Tracer_register n h loc root t = Some (reg_store r, t)) \<and>
   (map_of t root = None \<and> Store_new n h root = Some st \<longrightarrow>
      Tracer_register n h loc root t =
        Some (st, t @ [(root, \<lparr>reg_filename = fst loc, reg_line = snd loc, reg_store = st\<rparr>)]) \<and>
      (\<forall>n' loc'.
         Tracer_register n' h loc' root
           (t @ [(root, \<lparr>reg_filename = fst loc, reg_line = snd loc, reg_store = st\<rparr>)]) =
         Some (st, t @ [(root, \<lparr>reg_filename = fst loc, reg_line = snd loc, reg_store = st\<rparr>)])))"
  by (simp add: Tracer_register_def map_add_def)

theorem register_once_witness:
  "map_of ([] :: tracer) 0 = None \<and>
   Store_new 4 shared_heap 0 = Some shared_scanned \<and>
   Tracer_register 4 shared_heap (''test/a.js'', 10) 0 [] =
     Some (shared_scanned,
           [(0, \<lparr>reg_filename = ''test/a.js'', reg_line = 10, reg_store = shared_scanned\<rparr>)]) \<and>
   Tracer_register 0 shared_heap (''test/other.js'', 7) 0
     [(0, \<lparr>reg_filename = ''test/a.js'', reg_line = 10, reg_store = shared_scanned\<rparr>)] =
     Some (shared_scanned,
           [(0, \<lparr>reg_filename = ''test/a.js'', reg_line = 10, reg_store = shared_scanned\<rparr>)])"
  using register_once [of "[]" 0 undefined 4 shared_heap "(''test/a.js'', 10)" shared_scanned]
    shared_scan
  by simp

end
